theory Spec2Isabelle
  imports Main "HOL-Library.AList"
begin

section \<open>Values, bytes and the JSON text format\<close>

text \<open>
  The client of \<^verbatim>\<open>mcp_client_demo.py\<close> exchanges JSON objects in frames of
  \<^verbatim>\<open>4-byte big-endian length + UTF-8 JSON\<close>.

  A Python \<^verbatim>\<open>bytes\<close> object is a \<open>string\<close> (a list of 8-bit characters). A Python
  \<^verbatim>\<open>str\<close> is represented by its UTF-8 encoding, so that \<^verbatim>\<open>s.encode("utf-8")\<close> and
  \<^verbatim>\<open>b.decode("utf-8")\<close> keep the bytes and only check them; a lone surrogate code point
  (which Python strings may hold, and UTF-8 refuses) is represented by its three-byte
  generalised encoding. A Python \<^verbatim>\<open>dict\<close> with string keys is an association list in
  insertion order; \<^verbatim>\<open>None\<close> is \<open>JNull\<close>. A float is carried as its number literal and never
  interpreted.
\<close>

type_synonym bytes = string

datatype json =
    JNull
  | JBool bool
  | JInt int
  | JFloat string
  | JStr string
  | JList "json list"
  | JDict "(string \<times> json) list"

datatype exn =
    ConnectionError string
  | ConnectionResetError
  | IncompleteReadError
  | TimeoutError
  | OSError string
  | CancelledError
  | StructError
  | UnicodeEncodeError
  | UnicodeDecodeError
  | AttributeError

text \<open>\<^verbatim>\<open>except Exception\<close> catches everything but \<^verbatim>\<open>asyncio.CancelledError\<close>, which derives
  from \<^verbatim>\<open>BaseException\<close>.\<close>

definition is_Exception :: "exn \<Rightarrow> bool" where
  "is_Exception e = (e \<noteq> CancelledError)"

subsection \<open>Decimal integers: \<^verbatim>\<open>str(int)\<close> and \<^verbatim>\<open>int(str)\<close>\<close>

definition digit_char :: "int \<Rightarrow> char" where
  "digit_char d = char_of (48 + d)"

definition is_digit :: "char \<Rightarrow> bool" where
  "is_digit c = (48 \<le> (of_char c :: nat) \<and> (of_char c :: nat) \<le> 57)"

definition digit_val :: "char \<Rightarrow> int" where
  "digit_val c = of_char c - 48"

text \<open>The digits of a number that is not negative.\<close>

function str_nat :: "int \<Rightarrow> string" where
  "str_nat n = (if n < 10 then [digit_char n] else str_nat (n div 10) @ [digit_char (n mod 10)])"
  by pat_completeness auto
termination
  by (relation "measure nat") auto

declare str_nat.simps [simp del]

definition str_int :: "int \<Rightarrow> string" where
  "str_int i = (if i < 0 then CHR ''-'' # str_nat (- i) else str_nat i)"

definition int_of_digits :: "string \<Rightarrow> int" where
  "int_of_digits ds = foldl (\<lambda>a c. 10 * a + digit_val c) 0 ds"

subsection \<open>UTF-8\<close>

definition cont :: "char \<Rightarrow> bool" where
  "cont c = (128 \<le> (of_char c :: nat) \<and> (of_char c :: nat) \<le> 191)"

text \<open>The well-formed byte sequences of UTF-8 (the strict decoder of \<^verbatim>\<open>bytes.decode\<close>):
  shortest form only, no surrogates, nothing above U+10FFFF.\<close>

fun utf8_valid :: "bytes \<Rightarrow> bool" where
  "utf8_valid [] = True"
| "utf8_valid (a # s) =
     (let x = (of_char a :: nat) in
      if x < 128 then utf8_valid s
      else if 194 \<le> x \<and> x \<le> 223 then
        (case s of b # s' \<Rightarrow> cont b \<and> utf8_valid s' | _ \<Rightarrow> False)
      else if 224 \<le> x \<and> x \<le> 239 then
        (case s of b # c # s' \<Rightarrow>
           cont b \<and> cont c \<and> (x = 224 \<longrightarrow> 160 \<le> (of_char b :: nat))
             \<and> (x = 237 \<longrightarrow> (of_char b :: nat) \<le> 159) \<and> utf8_valid s'
         | _ \<Rightarrow> False)
      else if 240 \<le> x \<and> x \<le> 244 then
        (case s of b # c # d # s' \<Rightarrow>
           cont b \<and> cont c \<and> cont d \<and> (x = 240 \<longrightarrow> 144 \<le> (of_char b :: nat))
             \<and> (x = 244 \<longrightarrow> (of_char b :: nat) \<le> 143) \<and> utf8_valid s'
         | _ \<Rightarrow> False)
      else False)"

text \<open>The bytes of one code point (generalised: a surrogate gets three bytes).\<close>

definition utf8_of_cp :: "int \<Rightarrow> bytes" where
  "utf8_of_cp u =
     (if u < 128 then [char_of u]
      else if u < 2048 then [char_of (192 + u div 64), char_of (128 + u mod 64)]
      else if u < 65536 then
        [char_of (224 + u div 4096), char_of (128 + u div 64 mod 64), char_of (128 + u mod 64)]
      else
        [char_of (240 + u div 262144), char_of (128 + u div 4096 mod 64),
         char_of (128 + u div 64 mod 64), char_of (128 + u mod 64)])"

definition encode_utf8 :: "string \<Rightarrow> exn + bytes" where
  "encode_utf8 s = (if utf8_valid s then Inr s else Inl UnicodeEncodeError)"

definition decode_utf8 :: "bytes \<Rightarrow> exn + string" where
  "decode_utf8 b = (if utf8_valid b then Inr b else Inl UnicodeDecodeError)"

subsection \<open>\<^verbatim>\<open>json.dumps(obj, separators=(",", ":"), ensure_ascii=False)\<close>\<close>

definition hex_char :: "int \<Rightarrow> char" where
  "hex_char d = (if d < 10 then char_of (48 + d) else char_of (87 + d))"

text \<open>The escape table of the encoder: quote, backslash, the five short escapes, and
  \<^verbatim>\<open>\u00XX\<close> for the other characters below U+0020. Everything else is written as it is.\<close>

definition escape_char :: "char \<Rightarrow> string" where
  "escape_char c =
     (let x = (of_char c :: int) in
      if x = 34 then [CHR 0x5C, CHR 0x22]
      else if x = 92 then [CHR 0x5C, CHR 0x5C]
      else if x = 10 then [CHR 0x5C, CHR ''n'']
      else if x = 13 then [CHR 0x5C, CHR ''r'']
      else if x = 9 then [CHR 0x5C, CHR ''t'']
      else if x = 8 then [CHR 0x5C, CHR ''b'']
      else if x = 12 then [CHR 0x5C, CHR ''f'']
      else if x < 32 then [CHR 0x5C, CHR ''u'', CHR ''0'', CHR ''0'', hex_char (x div 16), hex_char (x mod 16)]
      else [c])"

definition encode_basestring :: "string \<Rightarrow> string" where
  "encode_basestring s = CHR 0x22 # concat (map escape_char s) @ [CHR 0x22]"

fun join_comma :: "string list \<Rightarrow> string" where
  "join_comma [] = []"
| "join_comma [x] = x"
| "join_comma (x # y # ys) = x @ CHR '','' # join_comma (y # ys)"

fun dumps :: "json \<Rightarrow> string" where
  "dumps JNull = ''null''"
| "dumps (JBool b) = (if b then ''true'' else ''false'')"
| "dumps (JInt i) = str_int i"
| "dumps (JFloat t) = t"
| "dumps (JStr s) = encode_basestring s"
| "dumps (JList vs) = CHR ''['' # join_comma (map dumps vs) @ [CHR '']'']"
| "dumps (JDict kvs) =
     CHR ''{'' # join_comma (map (\<lambda>kv. encode_basestring (fst kv) @ CHR '':'' # dumps (snd kv)) kvs)
       @ [CHR ''}'']"

subsection \<open>\<^verbatim>\<open>json.loads\<close>\<close>

text \<open>
  The decoder of the standard library, as its scanner reads a text: whitespace is
  \<^verbatim>\<open>[ \t\n\r]*\<close>, a number is
  \<^verbatim>\<open>(-?(?:0|[1-9][0-9]*))(\.[0-9]+)?([eE][-+]?[0-9]+)?\<close>, a string ends at the first
  unescaped quote and may not hold a raw control character, and text after the value is
  an error. \<open>None\<close> stands for \<^verbatim>\<open>json.JSONDecodeError\<close>.
\<close>

definition is_ws :: "char \<Rightarrow> bool" where
  "is_ws c = (c = CHR '' '' \<or> c = CHR 0x09 \<or> c = CHR 0x0A \<or> c = CHR 0x0D)"

definition skip_ws :: "string \<Rightarrow> string" where
  "skip_ws s = dropWhile is_ws s"

definition hex_val :: "char \<Rightarrow> int option" where
  "hex_val c =
     (let x = (of_char c :: int) in
      if 48 \<le> x \<and> x \<le> 57 then Some (x - 48)
      else if 97 \<le> x \<and> x \<le> 102 then Some (x - 87)
      else if 65 \<le> x \<and> x \<le> 70 then Some (x - 55)
      else None)"

definition hex4 :: "string \<Rightarrow> int option" where
  "hex4 s =
     (case s of
        a # b # c # d # r \<Rightarrow>
          (case hex_val a of None \<Rightarrow> None | Some w \<Rightarrow>
           case hex_val b of None \<Rightarrow> None | Some x \<Rightarrow>
           case hex_val c of None \<Rightarrow> None | Some y \<Rightarrow>
           case hex_val d of None \<Rightarrow> None | Some z \<Rightarrow> Some (((w * 16 + x) * 16 + y) * 16 + z))
      | _ \<Rightarrow> None)"

text \<open>After \<^verbatim>\<open>\u\<close>: the code point and the number of characters read. A high surrogate
  followed by the escape of a low surrogate is joined with it.\<close>

definition scan_u :: "string \<Rightarrow> (int \<times> nat) option" where
  "scan_u r =
     (case hex4 r of None \<Rightarrow> None
      | Some uni \<Rightarrow>
          if 55296 \<le> uni \<and> uni \<le> 56319 \<and> take 2 (drop 4 r) = [CHR 0x5C, CHR ''u''] then
            (case hex4 (drop 6 r) of None \<Rightarrow> None
             | Some uni2 \<Rightarrow>
                 if 56320 \<le> uni2 \<and> uni2 \<le> 57343
                 then Some (65536 + ((uni - 55296) * 1024 + (uni2 - 56320)), 10)
                 else Some (uni, 4))
          else Some (uni, 4))"

definition unescape :: "char \<Rightarrow> char option" where
  "unescape e =
     (if e = CHR 0x22 then Some (CHR 0x22)
      else if e = CHR 0x5C then Some (CHR 0x5C)
      else if e = CHR ''/'' then Some (CHR ''/'')
      else if e = CHR ''b'' then Some (CHR 0x08)
      else if e = CHR ''f'' then Some (CHR 0x0C)
      else if e = CHR ''n'' then Some (CHR 0x0A)
      else if e = CHR ''r'' then Some (CHR 0x0D)
      else if e = CHR ''t'' then Some (CHR 0x09)
      else None)"

definition prepend :: "string \<Rightarrow> (string \<times> string) option \<Rightarrow> (string \<times> string) option" where
  "prepend p res = (case res of None \<Rightarrow> None | Some (t, r) \<Rightarrow> Some (p @ t, r))"

text \<open>\<open>scanstring s\<close> reads a string whose opening quote has been consumed: the decoded
  contents and the text after the closing quote.\<close>

function scanstring :: "string \<Rightarrow> (string \<times> string) option" where
  "scanstring [] = None"
| "scanstring (c # r) =
     (if c = CHR 0x22 then Some ([], r)
      else if c = CHR 0x5C then
        (case r of [] \<Rightarrow> None
         | e # r' \<Rightarrow>
             if e = CHR ''u'' then
               (case scan_u r' of None \<Rightarrow> None
                | Some (u, n) \<Rightarrow> prepend (utf8_of_cp u) (scanstring (drop n r')))
             else
               (case unescape e of None \<Rightarrow> None
                | Some ch \<Rightarrow> prepend [ch] (scanstring r')))
      else if (of_char c :: nat) < 32 then None
      else prepend [c] (scanstring r))"
  by pat_completeness auto
termination
  by (relation "measure length") auto

definition scan_number :: "string \<Rightarrow> (json \<times> string) option" where
  "scan_number s =
     (let sign = (if s \<noteq> [] \<and> hd s = CHR ''-'' then [CHR ''-''] else []);
          s1 = drop (length sign) s;
          ip = (case s1 of [] \<Rightarrow> []
                | c # r \<Rightarrow> if c = CHR ''0'' then [c]
                           else if is_digit c then takeWhile is_digit s1 else [])
      in if ip = [] then None
         else
           let s2 = drop (length ip) s1;
               frac = (case s2 of
                         c # d # r \<Rightarrow>
                           if c = CHR ''.'' \<and> is_digit d then c # takeWhile is_digit (d # r) else []
                       | _ \<Rightarrow> []);
               s3 = drop (length frac) s2;
               ex = (case s3 of [] \<Rightarrow> []
                     | c # r \<Rightarrow>
                         if c = CHR ''e'' \<or> c = CHR ''E'' then
                           (let sg = (if r \<noteq> [] \<and> (hd r = CHR ''+'' \<or> hd r = CHR ''-'')
                                      then [hd r] else []);
                                ds = takeWhile is_digit (drop (length sg) r)
                            in if ds = [] then [] else c # sg @ ds)
                         else []);
               s4 = drop (length ex) s3
           in if frac = [] \<and> ex = []
              then Some (JInt (if sign = [] then int_of_digits ip else - int_of_digits ip), s4)
              else Some (JFloat (sign @ ip @ frac @ ex), s4))"

text \<open>\<^verbatim>\<open>dict(pairs)\<close>: a repeated key keeps its first position and takes the last value.\<close>

definition dict_of_pairs :: "(string \<times> json) list \<Rightarrow> (string \<times> json) list" where
  "dict_of_pairs ps = fold (\<lambda>kv d. AList.update (fst kv) (snd kv) d) ps []"

lemma skip_ws_length: "length (skip_ws s) \<le> length s"
  by (simp add: skip_ws_def length_dropWhile_le)

lemma skip_ws_Cons_length: "skip_ws s = d # r \<Longrightarrow> length r < length s"
  using skip_ws_length [of s] by simp

lemma prepend_length:
  "prepend p res = Some (t, r) \<Longrightarrow> \<exists>t'. res = Some (t', r)"
  by (auto simp: prepend_def split: option.splits)

lemma scanstring_length: "scanstring s = Some (t, r) \<Longrightarrow> length r < length s"
proof (induction s arbitrary: t r rule: scanstring.induct)
  case 1
  then show ?case by simp
next
  case (2 c s)
  show ?case
  proof (cases "c = CHR 0x22")
    case True
    with "2.prems" show ?thesis by simp
  next
    case nq: False
    show ?thesis
    proof (cases "c = CHR 0x5C")
      case True
      then obtain e s' where s: "s = e # s'"
        using "2.prems" nq by (cases s) auto
      show ?thesis
      proof (cases "e = CHR ''u''")
        case eu: True
        then obtain u n where su: "scan_u s' = Some (u, n)"
          using "2.prems" nq True s by (auto split: option.splits)
        then have "prepend (utf8_of_cp u) (scanstring (drop n s')) = Some (t, r)"
          using "2.prems" nq True s eu by simp
        then obtain t' where "scanstring (drop n s') = Some (t', r)"
          using prepend_length by blast
        then have "length r < length (drop n s')"
          using "2.IH"(1) [OF nq True s eu su refl] by blast
        then show ?thesis using s by simp
      next
        case neu: False
        then obtain ch where un: "unescape e = Some ch"
          using "2.prems" nq True s by (auto split: option.splits)
        then have "prepend [ch] (scanstring s') = Some (t, r)"
          using "2.prems" nq True s neu by simp
        then obtain t' where "scanstring s' = Some (t', r)"
          using prepend_length by blast
        then have "length r < length s'"
          using "2.IH"(2) [OF nq True s neu un] by blast
        then show ?thesis using s by simp
      qed
    next
      case nb: False
      then have ge: "\<not> (of_char c :: nat) < 32"
        using "2.prems" nq by (auto split: if_splits)
      then have "prepend [c] (scanstring s) = Some (t, r)"
        using "2.prems" nq nb by simp
      then obtain t' where "scanstring s = Some (t', r)"
        using prepend_length by blast
      then have "length r < length s"
        using "2.IH"(3) [OF nq nb ge] by blast
      then show ?thesis by simp
    qed
  qed
qed

text \<open>
  The scanner proper. \<open>parse_array\<close> and \<open>parse_object\<close> are the loops of the
  library's \<^verbatim>\<open>JSONArray\<close> and \<^verbatim>\<open>JSONObject\<close>, with the values read so far (newest first);
  \<open>parse_object\<close> starts just after the opening quote of a key. The tests
  \<open>length r < length s\<close> are always true (a value is never empty, lemma
  \<open>parse_value_shorter\<close> below); they make the recursion visibly terminate.
\<close>

function parse_value :: "string \<Rightarrow> (json \<times> string) option"
  and parse_array :: "json list \<Rightarrow> string \<Rightarrow> (json \<times> string) option"
  and parse_object :: "(string \<times> json) list \<Rightarrow> string \<Rightarrow> (json \<times> string) option"
where
  "parse_value s =
     (case s of [] \<Rightarrow> None
      | c # r \<Rightarrow>
          if c = CHR 0x22 then
            (case scanstring r of None \<Rightarrow> None | Some (t, r') \<Rightarrow> Some (JStr t, r'))
          else if c = CHR ''{'' then
            (case skip_ws r of [] \<Rightarrow> None
             | d # r' \<Rightarrow>
                 if d = CHR ''}'' then Some (JDict [], r')
                 else if d = CHR 0x22 then parse_object [] r'
                 else None)
          else if c = CHR ''['' then
            (case skip_ws r of [] \<Rightarrow> None
             | d # r' \<Rightarrow>
                 if d = CHR '']'' then Some (JList [], r')
                 else parse_array [] (d # r'))
          else if take 4 s = ''null'' then Some (JNull, drop 4 s)
          else if take 4 s = ''true'' then Some (JBool True, drop 4 s)
          else if take 5 s = ''false'' then Some (JBool False, drop 5 s)
          else
            (case scan_number s of Some res \<Rightarrow> Some res
             | None \<Rightarrow>
                 if take 3 s = ''NaN'' then Some (JFloat ''NaN'', drop 3 s)
                 else if take 8 s = ''Infinity'' then Some (JFloat ''Infinity'', drop 8 s)
                 else if take 9 s = ''-Infinity'' then Some (JFloat ''-Infinity'', drop 9 s)
                 else None))"
| "parse_array acc s =
     (case parse_value s of None \<Rightarrow> None
      | Some (v, r) \<Rightarrow>
          if length r < length s then
            (case skip_ws r of [] \<Rightarrow> None
             | d # r' \<Rightarrow>
                 if d = CHR '']'' then Some (JList (rev (v # acc)), r')
                 else if d = CHR '','' then parse_array (v # acc) (skip_ws r')
                 else None)
          else None)"
| "parse_object acc s =
     (case scanstring s of None \<Rightarrow> None
      | Some (k, r) \<Rightarrow>
          (case skip_ws r of [] \<Rightarrow> None
           | c # r1 \<Rightarrow>
               if c \<noteq> CHR '':'' then None
               else
                 (case parse_value (skip_ws r1) of None \<Rightarrow> None
                  | Some (v, r2) \<Rightarrow>
                      if length r2 < length (skip_ws r1) then
                        (case skip_ws r2 of [] \<Rightarrow> None
                         | d # r3 \<Rightarrow>
                             if d = CHR ''}'' then Some (JDict (dict_of_pairs (rev ((k, v) # acc))), r3)
                             else if d = CHR '','' then
                               (case skip_ws r3 of [] \<Rightarrow> None
                                | q # r4 \<Rightarrow>
                                    if q = CHR 0x22 then parse_object ((k, v) # acc) r4 else None)
                             else None)
                      else None)))"
  by pat_completeness auto
termination
proof (relation "measure (\<lambda>x. case x of Inl s \<Rightarrow> 2 * length s
                                | Inr (Inl (acc, s)) \<Rightarrow> 2 * length s + 1
                                | Inr (Inr (acc, s)) \<Rightarrow> 2 * length s + 1)", goal_cases)
  case 1
  then show ?case by simp
next
  case (2 s c r d r')
  then show ?case using skip_ws_Cons_length [of r d r'] by simp
next
  case (3 s c r d r')
  then show ?case using skip_ws_length [of r] by simp
next
  case (4 acc s)
  then show ?case by simp
next
  case (5 acc s x v r d r')
  then show ?case
    using skip_ws_Cons_length [of r d r'] skip_ws_length [of r'] by simp
next
  case (6 acc s x k r c r1)
  then show ?case
    using scanstring_length [of s k r] skip_ws_Cons_length [of r c r1] skip_ws_length [of r1]
    by simp
next
  case (7 acc s x k r c r1 y v r2 d r3 q r4)
  then show ?case
    using scanstring_length [of s k r] skip_ws_Cons_length [of r c r1] skip_ws_length [of r1]
      skip_ws_Cons_length [of r2 d r3] skip_ws_Cons_length [of r3 q r4]
    by simp
qed

declare parse_value.simps [simp del] parse_array.simps [simp del] parse_object.simps [simp del]

definition json_loads :: "string \<Rightarrow> json option" where
  "json_loads s =
     (case parse_value (skip_ws s) of None \<Rightarrow> None
      | Some (v, r) \<Rightarrow> if skip_ws r = [] then Some v else None)"

section \<open>The frame codec\<close>

text \<open>\<^verbatim>\<open>struct.pack(">I", n)\<close> raises \<^verbatim>\<open>struct.error\<close> outside \<open>0 \<le> n < 2\<^sup>3\<^sup>2\<close>;
  \<^verbatim>\<open>struct.unpack(">I", b)\<close> needs exactly four bytes.\<close>

definition pack_u32 :: "int \<Rightarrow> exn + bytes" where
  "pack_u32 n =
     (if 0 \<le> n \<and> n < 4294967296
      then Inr [char_of (n div 16777216), char_of (n div 65536), char_of (n div 256), char_of n]
      else Inl StructError)"

definition unpack_u32 :: "bytes \<Rightarrow> exn + int" where
  "unpack_u32 b =
     (case b of
        [b3, b2, b1, b0] \<Rightarrow>
          Inr (((of_char b3 * 256 + of_char b2) * 256 + of_char b1) * 256 + of_char b0)
      | _ \<Rightarrow> Inl StructError)"

text \<open>An \<^verbatim>\<open>asyncio.StreamReader\<close>: the bytes received and not yet read, whether the end of
  the stream has been fed, and the exception the transport has set. An
  \<^verbatim>\<open>asyncio.StreamWriter\<close>: the bytes handed to the transport, and whether it is closing (a
  closing transport drops what is written).\<close>

record stream_reader =
  buffer :: bytes
  eof :: bool
  exception :: "exn option"

record stream_writer =
  sent :: bytes
  closing :: bool

definition at_eof :: "stream_reader \<Rightarrow> bool" where
  "at_eof rd = (eof rd \<and> buffer rd = [])"

definition writer_write :: "bytes \<Rightarrow> stream_writer \<Rightarrow> stream_writer" where
  "writer_write data w = (if closing w then w else w\<lparr>sent := sent w @ data\<rparr>)"

text \<open>What an awaited operation does when the coroutine is next run: it is still
  suspended, it raises, or it returns.\<close>

datatype 'a outcome = Suspended | Raised exn | Returned 'a

definition readexactly :: "nat \<Rightarrow> stream_reader \<Rightarrow> bytes outcome \<times> stream_reader" where
  "readexactly n rd =
     (case exception rd of
        Some e \<Rightarrow> (Raised e, rd)
      | None \<Rightarrow>
          if n = 0 then (Returned [], rd)
          else if n \<le> length (buffer rd)
          then (Returned (take n (buffer rd)), rd\<lparr>buffer := drop n (buffer rd)\<rparr>)
          else if eof rd then (Raised IncompleteReadError, rd\<lparr>buffer := []\<rparr>)
          else (Suspended, rd))"

text \<open>\<^verbatim>\<open>_read_exact\<close>: \<open>None\<close> for \<^verbatim>\<open>IncompleteReadError\<close> and \<^verbatim>\<open>ConnectionResetError\<close>.\<close>

definition read_exact :: "nat \<Rightarrow> stream_reader \<Rightarrow> bytes option outcome \<times> stream_reader" where
  "read_exact n rd =
     (case readexactly n rd of
        (Returned data, rd') \<Rightarrow> (Returned (Some data), rd')
      | (Raised e, rd') \<Rightarrow>
          if e = IncompleteReadError \<or> e = ConnectionResetError then (Returned None, rd')
          else (Raised e, rd')
      | (Suspended, rd') \<Rightarrow> (Suspended, rd'))"

text \<open>\<^verbatim>\<open>_read_message\<close>. Python's \<^verbatim>\<open>None\<close> is \<open>JNull\<close>. A read that is suspended for want of
  data leaves the reader as it was: the message is taken when the whole frame, or the
  end of the stream, has arrived. Only \<^verbatim>\<open>json.JSONDecodeError\<close> is caught; a body that is
  not UTF-8 raises.\<close>

definition read_message :: "stream_reader \<Rightarrow> json outcome \<times> stream_reader" where
  "read_message rd =
     (case read_exact 4 rd of
        (Suspended, _) \<Rightarrow> (Suspended, rd)
      | (Raised e, rd1) \<Rightarrow> (Raised e, rd1)
      | (Returned None, rd1) \<Rightarrow> (Returned JNull, rd1)
      | (Returned (Some prefix_bytes), rd1) \<Rightarrow>
          (case unpack_u32 prefix_bytes of
             Inl e \<Rightarrow> (Raised e, rd1)
           | Inr len \<Rightarrow>
               if len = 0 then (Returned JNull, rd1)
               else
                 (case read_exact (nat len) rd1 of
                    (Suspended, _) \<Rightarrow> (Suspended, rd)
                  | (Raised e, rd2) \<Rightarrow> (Raised e, rd2)
                  | (Returned None, rd2) \<Rightarrow> (Returned JNull, rd2)
                  | (Returned (Some body), rd2) \<Rightarrow>
                      (case decode_utf8 body of
                         Inl e \<Rightarrow> (Raised e, rd2)
                       | Inr text \<Rightarrow>
                           (case json_loads text of
                              None \<Rightarrow> (Returned JNull, rd2)
                            | Some v \<Rightarrow> (Returned v, rd2))))))"

text \<open>The bytes \<^verbatim>\<open>_write_message\<close> hands to the writer for an object.\<close>

definition encode :: "json \<Rightarrow> exn + bytes" where
  "encode obj =
     (case encode_utf8 (dumps obj) of
        Inl e \<Rightarrow> Inl e
      | Inr data \<Rightarrow>
          (case pack_u32 (int (length data)) of
             Inl e \<Rightarrow> Inl e
           | Inr prefix_bytes \<Rightarrow> Inr (prefix_bytes @ data)))"

section \<open>The client\<close>

text \<open>
  \<^verbatim>\<open>class MCPClient\<close>. The event loop runs one coroutine at a time and switches only at an
  \<^verbatim>\<open>await\<close>, so each function below is the code between two suspension points, run as
  one step on the state. The state holds the fields of the object and what they refer to:
  the futures (\<open>futs\<close>, addressed by index, shared by the registry and the waiting
  caller), the dictionaries callers pass in (\<open>dicts\<close>), the \<^verbatim>\<open>send_request\<close> coroutines
  (\<open>calls\<close>), and what has been printed. Time is not measured: that a timeout expires, a
  sleep ends or the peer sends bytes is an event of the run.
\<close>

datatype future = Pending | Result json | Exception exn | Cancelled

text \<open>A task is suspended at some point, with or without a pending \<^verbatim>\<open>cancel()\<close>, or it has
  ended.\<close>

datatype 'p task = Alive 'p bool | Done

datatype hb_point = Starting | Sleeping | Requesting nat

text \<open>A call of \<^verbatim>\<open>connect\<close> or \<^verbatim>\<open>send_request\<close> by the program or by the heartbeat loop:
  a \<^verbatim>\<open>connect\<close> suspended in \<^verbatim>\<open>open_connection\<close>; a \<^verbatim>\<open>send_request\<close> suspended in its
  \<^verbatim>\<open>connect\<close> (with the caller's payload), in \<^verbatim>\<open>drain\<close> or in \<^verbatim>\<open>wait_for\<close> (with its message
  id and future); or a call that has returned or raised.\<close>

datatype call =
    AwaitOpen
  | AwaitConnect nat
  | AwaitDrain int nat
  | AwaitFuture int nat
  | Return json
  | Raise exn

record client =
  reader :: "stream_reader option"
  writer :: "stream_writer option"
  receive_task :: "unit task option"
  heartbeat_task :: "hb_point task option"
  response_futures :: "(string \<times> nat) list"
  msg_id_counter :: int
  closed :: bool
  futs :: "future list"
  dicts :: "(string \<times> json) list list"
  calls :: "call list"
  stdout :: "json list"

definition init :: client where
  "init = \<lparr>reader = None, writer = None, receive_task = None, heartbeat_task = None,
           response_futures = [], msg_id_counter = 0, closed = False,
           futs = [], dicts = [], calls = [], stdout = []\<rparr>"

definition is_done :: "future \<Rightarrow> bool" where
  "is_done f = (f \<noteq> Pending)"

definition cancel :: "'p task option \<Rightarrow> 'p task option" where
  "cancel t = (case t of Some (Alive pt c) \<Rightarrow> Some (Alive pt True) | _ \<Rightarrow> t)"

subsection \<open>\<^verbatim>\<open>str()\<close> of a value\<close>

text \<open>\<^verbatim>\<open>str(x)\<close> is the decimal numeral of an integer and the string itself for a string.
  For the other values it is their \<^verbatim>\<open>repr\<close>; the quoting of strings nested in a list or a
  dict is kept to plain single quotes, and a float shows its literal.\<close>

fun str_join :: "string \<Rightarrow> string list \<Rightarrow> string" where
  "str_join sep [] = []"
| "str_join sep [x] = x"
| "str_join sep (x # y # ys) = x @ sep @ str_join sep (y # ys)"

fun py_repr :: "json \<Rightarrow> string" where
  "py_repr JNull = ''None''"
| "py_repr (JBool b) = (if b then ''True'' else ''False'')"
| "py_repr (JInt i) = str_int i"
| "py_repr (JFloat t) = t"
| "py_repr (JStr s) = CHR 0x27 # s @ [CHR 0x27]"
| "py_repr (JList vs) = CHR ''['' # str_join '', '' (map py_repr vs) @ [CHR '']'']"
| "py_repr (JDict kvs) =
     CHR ''{'' # str_join '', '' (map (\<lambda>kv. CHR 0x27 # fst kv @ [CHR 0x27] @ '': '' @ py_repr (snd kv)) kvs)
       @ [CHR ''}'']"

definition py_str :: "json \<Rightarrow> string" where
  "py_str v = (case v of JStr s \<Rightarrow> s | _ \<Rightarrow> py_repr v)"

subsection \<open>Dictionaries\<close>

definition dict_get :: "(string \<times> json) list \<Rightarrow> string \<Rightarrow> json" where
  "dict_get d k = (case map_of d k of None \<Rightarrow> JNull | Some v \<Rightarrow> v)"

definition setdefault :: "string \<Rightarrow> json \<Rightarrow> (string \<times> json) list \<Rightarrow> (string \<times> json) list" where
  "setdefault k v d = (case map_of d k of None \<Rightarrow> d @ [(k, v)] | Some _ \<Rightarrow> d)"

subsection \<open>\<^verbatim>\<open>_next_msg_id\<close>, \<^verbatim>\<open>_write_message\<close>, \<^verbatim>\<open>connect\<close>\<close>

definition next_msg_id :: "client \<Rightarrow> int \<times> client" where
  "next_msg_id s = (msg_id_counter s + 1, s\<lparr>msg_id_counter := msg_id_counter s + 1\<rparr>)"

text \<open>\<^verbatim>\<open>_write_message\<close> up to its \<^verbatim>\<open>await self._writer.drain()\<close>.\<close>

definition write_message :: "(string \<times> json) list \<Rightarrow> client \<Rightarrow> exn + client" where
  "write_message obj s =
     (case writer s of
        None \<Rightarrow> Inl (ConnectionError ''Not connected'')
      | Some w \<Rightarrow>
          (case encode (JDict obj) of
             Inl e \<Rightarrow> Inl e
           | Inr frame \<Rightarrow> Inr (s\<lparr>writer := Some (writer_write frame w)\<rparr>)))"

text \<open>\<^verbatim>\<open>connect\<close> returns at once when there is a reader that is not at its end; otherwise
  it is suspended in \<^verbatim>\<open>open_connection\<close>. \<open>connect_opened\<close> is the rest of \<^verbatim>\<open>connect\<close> once
  the connection is there: the new streams and the two tasks.\<close>

definition connected :: "client \<Rightarrow> bool" where
  "connected s = (case reader s of None \<Rightarrow> False | Some rd \<Rightarrow> \<not> at_eof rd)"

definition connect_opened :: "client \<Rightarrow> client" where
  "connect_opened s =
     s\<lparr>reader := Some \<lparr>buffer = [], eof = False, exception = None\<rparr>,
       writer := Some \<lparr>sent = [], closing = False\<rparr>,
       receive_task := Some (Alive () False),
       heartbeat_task := Some (Alive Starting False)\<rparr>"

definition connect :: "client \<Rightarrow> call \<times> client" where
  "connect s = (if connected s then (Return JNull, s) else (AwaitOpen, s))"

text \<open>\<^verbatim>\<open>open_connection\<close> (under \<^verbatim>\<open>wait_for\<close>) has finished for the \<^verbatim>\<open>connect\<close> call \<open>cid\<close>:
  with an exception, or with a connection.\<close>

definition connect_resume :: "nat \<Rightarrow> exn option \<Rightarrow> client \<Rightarrow> client" where
  "connect_resume cid r s =
     (if cid < length (calls s) then
        (case calls s ! cid of
           AwaitOpen \<Rightarrow>
             (case r of
                Some e \<Rightarrow> s\<lparr>calls := (calls s)[cid := Raise e]\<rparr>
              | None \<Rightarrow> (connect_opened s)\<lparr>calls := (calls s)[cid := Return JNull]\<rparr>)
         | _ \<Rightarrow> s)
      else s)"

subsection \<open>\<^verbatim>\<open>send_request\<close>\<close>

text \<open>From the copy of the payload to the \<^verbatim>\<open>drain\<close> inside \<^verbatim>\<open>_write_message\<close>. The payload
  is the address \<open>p\<close> of the caller's dictionary; \<^verbatim>\<open>dict(payload)\<close> allocates a new one. An
  exception of \<^verbatim>\<open>_write_message\<close> leaves the function before its \<^verbatim>\<open>try\<close>: the future stays
  registered.\<close>

definition send_request_send :: "nat \<Rightarrow> client \<Rightarrow> call \<times> client" where
  "send_request_send p s =
     (let (msg_id, s1) = next_msg_id s;
          q = length (dicts s1);
          s2 = s1\<lparr>dicts := dicts s1 @ [dicts s1 ! p]\<rparr>;
          s3 = s2\<lparr>dicts := (dicts s2)[q := setdefault ''type'' (JStr ''request'') (dicts s2 ! q)]\<rparr>;
          s4 = s3\<lparr>dicts := (dicts s3)[q := AList.update ''msg_id'' (JInt msg_id) (dicts s3 ! q)]\<rparr>;
          fut = length (futs s4);
          s5 = s4\<lparr>futs := futs s4 @ [Pending]\<rparr>;
          s6 = s5\<lparr>response_futures := AList.update (str_int msg_id) fut (response_futures s5)\<rparr>
      in case write_message (dicts s6 ! q) s6 of
           Inl e \<Rightarrow> (Raise e, s6)
         | Inr s7 \<Rightarrow> (AwaitDrain msg_id fut, s7))"

text \<open>The call itself, up to its first suspension.\<close>

definition send_request :: "nat \<Rightarrow> client \<Rightarrow> call \<times> client" where
  "send_request p s =
     (if closed s then (Raise (ConnectionError ''Client is closed''), s)
      else if writer s = None then
        (case connect s of
           (AwaitOpen, s') \<Rightarrow> (AwaitConnect p, s')
         | (c, s') \<Rightarrow> send_request_send p s')
      else send_request_send p s)"

text \<open>The \<^verbatim>\<open>connect\<close> inside the \<^verbatim>\<open>send_request\<close> call \<open>cid\<close> has finished: with an
  exception, which \<^verbatim>\<open>send_request\<close> lets through, or with a connection.\<close>

definition send_request_opened :: "nat \<Rightarrow> exn option \<Rightarrow> client \<Rightarrow> client" where
  "send_request_opened cid r s =
     (if cid < length (calls s) then
        (case calls s ! cid of
           AwaitConnect p \<Rightarrow>
             (case r of
                Some e \<Rightarrow> s\<lparr>calls := (calls s)[cid := Raise e]\<rparr>
              | None \<Rightarrow>
                  (let (c, s') = send_request_send p (connect_opened s)
                   in s'\<lparr>calls := (calls s')[cid := c]\<rparr>))
         | _ \<Rightarrow> s)
      else s)"

text \<open>\<^verbatim>\<open>drain\<close> has finished: with an exception (no \<^verbatim>\<open>finally\<close> is active yet), or the
  call goes on to \<^verbatim>\<open>wait_for(fut, timeout)\<close>.\<close>

definition send_request_drained :: "nat \<Rightarrow> exn option \<Rightarrow> client \<Rightarrow> client" where
  "send_request_drained cid r s =
     (if cid < length (calls s) then
        (case calls s ! cid of
           AwaitDrain msg_id fut \<Rightarrow>
             (case r of
                Some e \<Rightarrow> s\<lparr>calls := (calls s)[cid := Raise e]\<rparr>
              | None \<Rightarrow> s\<lparr>calls := (calls s)[cid := AwaitFuture msg_id fut]\<rparr>)
         | _ \<Rightarrow> s)
      else s)"

text \<open>\<^verbatim>\<open>asyncio.wait_for(fut, timeout)\<close> when it is run again, because the future is done
  or because the timeout has expired (\<open>timer\<close>): a done future gives its result, its
  exception or \<^verbatim>\<open>CancelledError\<close>; a pending one is cancelled on timeout.\<close>

definition wait_for :: "bool \<Rightarrow> nat \<Rightarrow> client \<Rightarrow> json outcome \<times> client" where
  "wait_for timer fut s =
     (case futs s ! fut of
        Result v \<Rightarrow> (Returned v, s)
      | Exception e \<Rightarrow> (Raised e, s)
      | Cancelled \<Rightarrow> (Raised CancelledError, s)
      | Pending \<Rightarrow>
          if timer then (Raised TimeoutError, s\<lparr>futs := (futs s)[fut := Cancelled]\<rparr>)
          else (Suspended, s))"

text \<open>The \<^verbatim>\<open>try\<close> of \<^verbatim>\<open>send_request\<close> once \<^verbatim>\<open>wait_for\<close> has an outcome; the \<^verbatim>\<open>finally\<close> pops
  the registry entry.\<close>

definition send_request_resume :: "bool \<Rightarrow> nat \<Rightarrow> client \<Rightarrow> client" where
  "send_request_resume timer cid s =
     (if cid < length (calls s) then
        (case calls s ! cid of
           AwaitFuture msg_id fut \<Rightarrow>
             (case wait_for timer fut s of
                (Suspended, _) \<Rightarrow> s
              | (Returned response, s1) \<Rightarrow>
                  s1\<lparr>response_futures := AList.delete (str_int msg_id) (response_futures s1),
                     calls := (calls s1)[cid := Return response]\<rparr>
              | (Raised e, s1) \<Rightarrow>
                  s1\<lparr>response_futures := AList.delete (str_int msg_id) (response_futures s1),
                     calls := (calls s1)[cid := Raise e]\<rparr>)
         | _ \<Rightarrow> s)
      else s)"

text \<open>\<^verbatim>\<open>CancelledError\<close> is thrown into the call at its suspension point (its task was
  cancelled). Inside \<^verbatim>\<open>wait_for\<close> a future that is already done still gives its result;
  a pending one is cancelled.\<close>

definition send_request_cancelled :: "nat \<Rightarrow> client \<Rightarrow> client" where
  "send_request_cancelled cid s =
     (if cid < length (calls s) then
        (case calls s ! cid of
           AwaitConnect p \<Rightarrow> s\<lparr>calls := (calls s)[cid := Raise CancelledError]\<rparr>
         | AwaitDrain msg_id fut \<Rightarrow> s\<lparr>calls := (calls s)[cid := Raise CancelledError]\<rparr>
         | AwaitOpen \<Rightarrow> s\<lparr>calls := (calls s)[cid := Raise CancelledError]\<rparr>
         | AwaitFuture msg_id fut \<Rightarrow>
             (let s1 = s\<lparr>response_futures := AList.delete (str_int msg_id) (response_futures s)\<rparr>
              in case futs s ! fut of
                   Result v \<Rightarrow> s1\<lparr>calls := (calls s1)[cid := Return v]\<rparr>
                 | Exception e \<Rightarrow> s1\<lparr>calls := (calls s1)[cid := Raise e]\<rparr>
                 | Cancelled \<Rightarrow> s1\<lparr>calls := (calls s1)[cid := Raise CancelledError]\<rparr>
                 | Pending \<Rightarrow>
                     s1\<lparr>futs := (futs s1)[fut := Cancelled],
                        calls := (calls s1)[cid := Raise CancelledError]\<rparr>)
         | _ \<Rightarrow> s)
      else s)"

subsection \<open>\<^verbatim>\<open>close\<close>\<close>

text \<open>The loop \<^verbatim>\<open>for fut in self._response_futures.values(): if not fut.done():
  fut.set_exception(e)\<close>, which ends both \<^verbatim>\<open>close\<close> and \<^verbatim>\<open>_reader_loop\<close>.\<close>

definition fail_pending :: "exn \<Rightarrow> client \<Rightarrow> client" where
  "fail_pending e s =
     s\<lparr>futs := fold (\<lambda>fut fs. if \<not> is_done (fs ! fut) then fs[fut := Exception e] else fs)
                 (map snd (response_futures s)) (futs s)\<rparr>"

definition close_resume :: "client \<Rightarrow> client" where
  "close_resume s = fail_pending (ConnectionError ''Client closed'') s"

text \<open>\<^verbatim>\<open>close\<close> up to \<^verbatim>\<open>await self._writer.wait_closed()\<close>; without a writer there is no
  suspension and the futures are failed in the same step.\<close>

definition close :: "client \<Rightarrow> client" where
  "close s =
     (let s1 = s\<lparr>closed := True\<rparr>;
          s2 = s1\<lparr>heartbeat_task := cancel (heartbeat_task s1)\<rparr>;
          s3 = s2\<lparr>receive_task := cancel (receive_task s2)\<rparr>
      in case writer s3 of
           None \<Rightarrow> close_resume s3
         | Some w \<Rightarrow> s3\<lparr>writer := Some (w\<lparr>closing := True\<rparr>)\<rparr>)"

subsection \<open>\<^verbatim>\<open>_handle_message\<close> and \<^verbatim>\<open>_reader_loop\<close>\<close>

text \<open>\<^verbatim>\<open>msg.get\<close> exists on a dict only.\<close>

definition handle_message :: "json \<Rightarrow> client \<Rightarrow> exn + client" where
  "handle_message msg s =
     (case msg of
        JDict d \<Rightarrow>
          (let reply_to = dict_get d ''reply_to'';
               notify = s\<lparr>stdout := stdout s @ [msg]\<rparr>
           in if reply_to \<noteq> JNull then
                (case map_of (response_futures s) (py_str reply_to) of
                   None \<Rightarrow> Inr notify
                 | Some fut \<Rightarrow>
                     if \<not> is_done (futs s ! fut)
                     then Inr (s\<lparr>futs := (futs s)[fut := Result msg]\<rparr>)
                     else Inr notify)
              else Inr notify)
      | _ \<Rightarrow> Inl AttributeError)"

text \<open>The \<^verbatim>\<open>finally\<close> of \<^verbatim>\<open>_reader_loop\<close>, after which the task has ended.\<close>

definition reader_loop_finally :: "client \<Rightarrow> client" where
  "reader_loop_finally s =
     (fail_pending (ConnectionError ''Connection lost'') s)\<lparr>receive_task := Some Done\<rparr>"

text \<open>One turn of \<^verbatim>\<open>while not self._reader.at_eof()\<close>. The loop is left when the reader is
  at its end, when \<^verbatim>\<open>_read_message\<close> returns \<^verbatim>\<open>None\<close>, and by any exception.\<close>

definition reader_loop :: "client \<Rightarrow> client" where
  "reader_loop s =
     (case reader s of
        None \<Rightarrow> s\<lparr>receive_task := Some Done\<rparr>
      | Some rd \<Rightarrow>
          if at_eof rd then reader_loop_finally s
          else
            (case read_message rd of
               (Suspended, _) \<Rightarrow> s
             | (Raised e, rd') \<Rightarrow> reader_loop_finally (s\<lparr>reader := Some rd'\<rparr>)
             | (Returned msg, rd') \<Rightarrow>
                 if msg = JNull then reader_loop_finally (s\<lparr>reader := Some rd'\<rparr>)
                 else
                   (case handle_message msg (s\<lparr>reader := Some rd'\<rparr>) of
                      Inl e \<Rightarrow> reader_loop_finally (s\<lparr>reader := Some rd'\<rparr>)
                    | Inr s' \<Rightarrow> s')))"

text \<open>The reader task is run: a pending \<^verbatim>\<open>cancel()\<close> raises \<^verbatim>\<open>CancelledError\<close> at its
  \<^verbatim>\<open>await\<close>, which the loop swallows before its \<^verbatim>\<open>finally\<close>.\<close>

definition reader_task_step :: "client \<Rightarrow> client" where
  "reader_task_step s =
     (case receive_task s of
        Some (Alive u c) \<Rightarrow> if c then reader_loop_finally s else reader_loop s
      | _ \<Rightarrow> s)"

subsection \<open>\<^verbatim>\<open>_heartbeat_loop\<close>\<close>

definition set_heartbeat :: "hb_point \<Rightarrow> client \<Rightarrow> client" where
  "set_heartbeat pt s =
     (case heartbeat_task s of
        Some (Alive pt' c) \<Rightarrow> s\<lparr>heartbeat_task := Some (Alive pt c)\<rparr>
      | _ \<Rightarrow> s)"

text \<open>\<^verbatim>\<open>while not self._closed: await asyncio.sleep(...)\<close>.\<close>

definition heartbeat_loop_head :: "client \<Rightarrow> client" where
  "heartbeat_loop_head s =
     (if closed s then s\<lparr>heartbeat_task := Some Done\<rparr> else set_heartbeat Sleeping s)"

text \<open>The heartbeat's \<^verbatim>\<open>send_request\<close> has finished, or not yet: a result is dropped, an
  \<^verbatim>\<open>Exception\<close> is passed over, and the loop goes back to its head; \<^verbatim>\<open>CancelledError\<close> ends
  the task.\<close>

definition heartbeat_continue :: "client \<Rightarrow> client" where
  "heartbeat_continue s =
     (case heartbeat_task s of
        Some (Alive (Requesting cid) c) \<Rightarrow>
          (if cid < length (calls s) then
             (case calls s ! cid of
                Return v \<Rightarrow> heartbeat_loop_head s
              | Raise e \<Rightarrow>
                  if is_Exception e then heartbeat_loop_head s
                  else s\<lparr>heartbeat_task := Some Done\<rparr>
              | _ \<Rightarrow> s)
           else s)
      | _ \<Rightarrow> s)"

text \<open>The sleep is over: \<^verbatim>\<open>await self.send_request({"type": "heartbeat"}, timeout=3.0)\<close>.\<close>

definition heartbeat_request :: "client \<Rightarrow> client" where
  "heartbeat_request s =
     (let p = length (dicts s);
          s1 = s\<lparr>dicts := dicts s @ [[(''type'', JStr ''heartbeat'')]]\<rparr>;
          (c, s2) = send_request p s1;
          cid = length (calls s2);
          s3 = s2\<lparr>calls := calls s2 @ [c]\<rparr>
      in heartbeat_continue (set_heartbeat (Requesting cid) s3))"

text \<open>The heartbeat task is run. A pending \<^verbatim>\<open>cancel()\<close> is delivered where the task is
  suspended: in the sleep, or inside its \<^verbatim>\<open>send_request\<close>.\<close>

definition heartbeat_loop :: "client \<Rightarrow> client" where
  "heartbeat_loop s =
     (case heartbeat_task s of
        Some (Alive pt c) \<Rightarrow>
          if c then
            (case pt of
               Requesting cid \<Rightarrow>
                 heartbeat_continue
                   (send_request_cancelled cid (s\<lparr>heartbeat_task := Some (Alive pt False)\<rparr>))
             | _ \<Rightarrow> s\<lparr>heartbeat_task := Some Done\<rparr>)
          else
            (case pt of
               Starting \<Rightarrow> heartbeat_loop_head s
             | Sleeping \<Rightarrow> heartbeat_request s
             | Requesting cid \<Rightarrow> s)
      | _ \<Rightarrow> s)"

subsection \<open>Runs\<close>

text \<open>
  The events of a run: what the program around the client does (\<open>NewDict\<close> allocates a
  payload, \<open>Connect\<close>, \<open>Send\<close> and \<open>Close\<close> call the client), what the network does (\<open>Opened\<close>, \<open>Drained\<close>, \<open>Feed\<close>, \<open>FeedEof\<close>,
  \<open>ConnectionLost\<close>, \<open>CloseResume\<close> when the transport has closed), what the clock does
  (\<open>Timeout\<close>), and which suspended coroutine the event loop runs next (\<open>Wake\<close>,
  \<open>ReaderStep\<close>, \<open>HeartbeatStep\<close>). An event that does not apply in a state leaves it
  unchanged; the network fails with an \<^verbatim>\<open>Exception\<close>, never with \<^verbatim>\<open>CancelledError\<close>, which
  only a cancelled task receives. The run follows the two tasks the object refers to.
\<close>

datatype event =
    NewDict "(string \<times> json) list"
  | Connect
  | Opened nat "exn option"
  | Send nat
  | Drained nat "exn option"
  | Wake nat
  | Timeout nat
  | Close
  | CloseResume
  | ReaderStep
  | HeartbeatStep
  | Feed bytes
  | FeedEof
  | ConnectionLost exn

definition feed :: "(stream_reader \<Rightarrow> stream_reader) \<Rightarrow> client \<Rightarrow> client" where
  "feed f s = (case reader s of None \<Rightarrow> s | Some rd \<Rightarrow> s\<lparr>reader := Some (f rd)\<rparr>)"

fun step :: "event \<Rightarrow> client \<Rightarrow> client" where
  "step (NewDict d) s = s\<lparr>dicts := dicts s @ [d]\<rparr>"
| "step Connect s = (let (c, s') = connect s in s'\<lparr>calls := calls s' @ [c]\<rparr>)"
| "step (Opened cid r) s =
     (if r = Some CancelledError then s
      else heartbeat_continue (send_request_opened cid r (connect_resume cid r s)))"
| "step (Send p) s =
     (if p < length (dicts s)
      then (let (c, s') = send_request p s in s'\<lparr>calls := calls s' @ [c]\<rparr>)
      else s)"
| "step (Drained cid r) s =
     (if r = Some CancelledError then s
      else heartbeat_continue (send_request_drained cid r s))"
| "step (Wake cid) s = heartbeat_continue (send_request_resume False cid s)"
| "step (Timeout cid) s = heartbeat_continue (send_request_resume True cid s)"
| "step Close s = close s"
| "step CloseResume s = close_resume s"
| "step ReaderStep s = reader_task_step s"
| "step HeartbeatStep s = heartbeat_loop s"
| "step (Feed data) s = feed (\<lambda>rd. if eof rd then rd else rd\<lparr>buffer := buffer rd @ data\<rparr>) s"
| "step FeedEof s = feed (\<lambda>rd. rd\<lparr>eof := True\<rparr>) s"
| "step (ConnectionLost e) s = feed (\<lambda>rd. rd\<lparr>exception := Some e\<rparr>) s"

definition run :: "event list \<Rightarrow> client \<Rightarrow> client" where
  "run es s = fold step es s"

section \<open>What no step undoes\<close>

text \<open>
  \<open>extends s s'\<close> collects what every step keeps: the counter does not decrease, a closed
  client stays closed, the futures, calls and dictionaries that exist stay where they
  are, a future that is done keeps its state, a call that has finished keeps its
  outcome, and a dictionary keeps its contents.
\<close>

definition finished :: "call \<Rightarrow> bool" where
  "finished c = (case c of Return v \<Rightarrow> True | Raise e \<Rightarrow> True | _ \<Rightarrow> False)"

definition extends :: "client \<Rightarrow> client \<Rightarrow> bool" where
  "extends s s' \<longleftrightarrow>
     msg_id_counter s \<le> msg_id_counter s' \<and> (closed s \<longrightarrow> closed s') \<and>
     length (futs s) \<le> length (futs s') \<and>
     (\<forall>r < length (futs s). is_done (futs s ! r) \<longrightarrow> futs s' ! r = futs s ! r) \<and>
     length (calls s) \<le> length (calls s') \<and>
     (\<forall>c < length (calls s). finished (calls s ! c) \<longrightarrow> calls s' ! c = calls s ! c) \<and>
     length (dicts s) \<le> length (dicts s') \<and>
     (\<forall>p < length (dicts s). dicts s' ! p = dicts s ! p)"

lemma extends_refl [simp]: "extends s s"
  by (simp add: extends_def)

lemma extends_trans: "extends s s' \<Longrightarrow> extends s' s'' \<Longrightarrow> extends s s''"
  unfolding extends_def by auto

lemma fold_fail_length:
  "length (fold (\<lambda>fut fs. if \<not> is_done (fs ! fut) then fs[fut := x] else fs) rs fs) = length fs"
  by (induction rs arbitrary: fs) auto

lemma fold_fail_done:
  "is_done (fs ! r) \<Longrightarrow>
   fold (\<lambda>fut fs. if \<not> is_done (fs ! fut) then fs[fut := x] else fs) rs fs ! r = fs ! r"
proof (induction rs arbitrary: fs)
  case Nil
  then show ?case by simp
next
  case (Cons a rs)
  show ?case
  proof (cases "is_done (fs ! a)")
    case True
    then show ?thesis using Cons by simp
  next
    case False
    then have ne: "a \<noteq> r" using Cons.prems by auto
    then have "is_done (fs[a := x] ! r)" using Cons.prems by simp
    then show ?thesis using Cons.IH [of "fs[a := x]"] False ne by simp
  qed
qed

lemma extends_fail_pending: "extends s (fail_pending e s)"
  by (simp add: extends_def fail_pending_def fold_fail_length fold_fail_done)

lemma extends_close_resume: "extends s (close_resume s)"
  by (simp add: close_resume_def extends_fail_pending)

lemma extends_close: "extends s (close s)"
proof (cases "writer s")
  case None
  have "extends s (s\<lparr>closed := True, heartbeat_task := cancel (heartbeat_task s), receive_task := cancel (receive_task s)\<rparr>)"
    by (simp add: extends_def)
  then show ?thesis using None extends_close_resume extends_trans
    by (simp add: close_def Let_def)
next
  case (Some w)
  then show ?thesis by (simp add: close_def Let_def extends_def)
qed


lemma extends_send_request_send: "extends s (snd (send_request_send p s))"
  by (simp add: send_request_send_def next_msg_id_def write_message_def Let_def extends_def nth_append
      split: sum.splits option.splits)


lemma extends_connect_opened: "extends s (connect_opened s)"
  by (simp add: connect_opened_def extends_def)

lemma extends_send_request: "extends s (snd (send_request p s))"
  by (simp add: send_request_def connect_def extends_send_request_send)

lemma extends_set_call:
  "cid < length (calls s) \<Longrightarrow> \<not> finished (calls s ! cid) \<Longrightarrow> extends s (s\<lparr>calls := (calls s)[cid := c]\<rparr>)"
  by (auto simp: extends_def nth_list_update)

lemma extends_append_call: "extends s (s\<lparr>calls := calls s @ [c]\<rparr>)"
  by (simp add: extends_def nth_append)

lemma extends_connect_resume: "extends s (connect_resume cid r s)"
proof (cases "cid < length (calls s) \<and> calls s ! cid = AwaitOpen")
  case True
  then have nf: "\<not> finished (calls s ! cid)" by (simp add: finished_def)
  show ?thesis
  proof (cases r)
    case None
    have "extends (connect_opened s) ((connect_opened s)\<lparr>calls := (calls (connect_opened s))[cid := Return JNull]\<rparr>)"
      using True nf by (intro extends_set_call) (simp_all add: connect_opened_def)
    then have "extends s ((connect_opened s)\<lparr>calls := (calls s)[cid := Return JNull]\<rparr>)"
      using extends_trans [OF extends_connect_opened] by (simp add: connect_opened_def)
    then show ?thesis using True None by (simp add: connect_resume_def)
  next
    case (Some e)
    then show ?thesis using True nf extends_set_call by (simp add: connect_resume_def)
  qed
next
  case False
  then show ?thesis by (auto simp: connect_resume_def split: call.splits)
qed


lemma calls_send_request_send [simp]: "calls (snd (send_request_send p s)) = calls s"
  by (simp add: send_request_send_def next_msg_id_def write_message_def Let_def
      split: sum.splits option.splits)

lemma calls_connect_opened [simp]: "calls (connect_opened s) = calls s"
  by (simp add: connect_opened_def)

lemma extends_send_request_opened: "extends s (send_request_opened cid r s)"
proof (cases "cid < length (calls s) \<and> (\<exists>p. calls s ! cid = AwaitConnect p)")
  case True
  then obtain p where p: "calls s ! cid = AwaitConnect p" and lt: "cid < length (calls s)" by blast
  then have nf: "\<not> finished (calls s ! cid)" by (simp add: finished_def)
  show ?thesis
  proof (cases r)
    case None
    obtain c s' where cs: "send_request_send p (connect_opened s) = (c, s')"
      by (cases "send_request_send p (connect_opened s)")
    have e1: "extends s s'"
      using extends_trans [OF extends_connect_opened extends_send_request_send, of s p] cs by simp
    have cl: "calls s' = calls s"
      using calls_send_request_send [of p "connect_opened s"] cs by simp
    have "extends s' (s'\<lparr>calls := (calls s')[cid := c]\<rparr>)"
      using lt nf cl by (intro extends_set_call) simp_all
    then show ?thesis using e1 extends_trans p lt None cs by (simp add: send_request_opened_def)
  next
    case (Some e)
    then show ?thesis using p lt nf extends_set_call by (simp add: send_request_opened_def)
  qed
next
  case False
  then show ?thesis by (auto simp: send_request_opened_def split: call.splits)
qed

lemma extends_send_request_drained: "extends s (send_request_drained cid r s)"
  by (auto simp: send_request_drained_def finished_def intro!: extends_set_call split: call.splits option.splits)

lemma nth_update_done:
  "\<not> is_done (fs ! fut) \<Longrightarrow> is_done (fs ! r) \<Longrightarrow> fs[fut := x] ! r = fs ! r"
  by (cases "fut = r") auto

lemma extends_set_fut:
  "\<not> is_done (futs s ! fut) \<Longrightarrow> extends s (s\<lparr>futs := (futs s)[fut := x]\<rparr>)"
  by (simp add: extends_def nth_update_done)

lemma extends_wait_for: "extends s (snd (wait_for timer fut s))"
  by (auto simp: wait_for_def is_done_def intro!: extends_set_fut split: future.splits)

lemma calls_wait_for [simp]: "calls (snd (wait_for timer fut s)) = calls s"
  by (auto simp: wait_for_def split: future.splits)


lemma extends_pop:
  "extends s (s\<lparr>response_futures := x\<rparr>)"
  by (simp add: extends_def)

lemma extends_send_request_resume: "extends s (send_request_resume timer cid s)"
proof (cases "cid < length (calls s) \<and> (\<exists>m f. calls s ! cid = AwaitFuture m f)")
  case True
  then obtain m f where p: "calls s ! cid = AwaitFuture m f" and lt: "cid < length (calls s)" by blast
  then have nf: "\<not> finished (calls s ! cid)" by (simp add: finished_def)
  obtain o1 s1 where w: "wait_for timer f s = (o1, s1)" by (cases "wait_for timer f s")
  have e1: "extends s s1" using extends_wait_for [of s timer f] w by simp
  have cl: "calls s1 = calls s" using calls_wait_for [of timer f s] w by simp
  have e2: "extends s1 (s1\<lparr>response_futures := x, calls := (calls s1)[cid := c]\<rparr>)" for x c
    using lt nf cl by (auto simp: extends_def nth_list_update)
  show ?thesis
    using p lt w e1 e2 extends_trans [OF e1 e2]
    by (cases o1) (simp_all add: send_request_resume_def)
next
  case False
  then show ?thesis by (auto simp: send_request_resume_def split: call.splits)
qed

lemma extends_send_request_cancelled: "extends s (send_request_cancelled cid s)"
proof (cases "cid < length (calls s) \<and> \<not> finished (calls s ! cid)")
  case True
  then have lt: "cid < length (calls s)" and nf: "\<not> finished (calls s ! cid)" by auto
  have e2: "extends s (s\<lparr>response_futures := x, calls := (calls s)[cid := c]\<rparr>)" for x c
    using lt nf by (auto simp: extends_def nth_list_update)
  have e3: "\<not> is_done (futs s ! fut) \<Longrightarrow>
     extends s (s\<lparr>response_futures := x, futs := (futs s)[fut := y], calls := (calls s)[cid := c]\<rparr>)" for x y c fut
    using lt nf by (auto simp: extends_def nth_list_update nth_update_done)
  show ?thesis
    using lt nf e2 e3 extends_set_call
    by (auto simp: send_request_cancelled_def Let_def is_done_def split: call.splits future.splits)
next
  case False
  then show ?thesis by (auto simp: send_request_cancelled_def finished_def split: call.splits)
qed

lemma extends_handle_message: "handle_message msg s = Inr s' \<Longrightarrow> extends s s'"
  by (auto simp: handle_message_def Let_def extends_def nth_update_done split: json.splits option.splits if_splits)

lemma extends_task: "extends s (s\<lparr>receive_task := x\<rparr>)" "extends s (s\<lparr>heartbeat_task := y\<rparr>)"
  "extends s (s\<lparr>reader := z\<rparr>)"
  by (simp_all add: extends_def)

lemma extends_reader_loop_finally: "extends s (reader_loop_finally s)"
  using extends_trans [OF extends_fail_pending extends_task(1)]
  by (simp add: reader_loop_finally_def)

lemma extends_reader_loop: "extends s (reader_loop s)"
proof (cases "reader s")
  case None
  then show ?thesis by (simp add: reader_loop_def extends_task)
next
  case (Some rd)
  have fin: "extends s (reader_loop_finally (s\<lparr>reader := x\<rparr>))" for x
    using extends_trans [OF extends_task(3) extends_reader_loop_finally] by blast
  have hm: "handle_message msg (s\<lparr>reader := x\<rparr>) = Inr s' \<Longrightarrow> extends s s'" for msg x s'
    using extends_trans [OF extends_task(3) extends_handle_message] by blast
  show ?thesis
    using Some fin hm extends_reader_loop_finally
    by (auto simp: reader_loop_def split: prod.splits outcome.splits sum.splits)
qed

lemma extends_reader_task_step: "extends s (reader_task_step s)"
  by (auto simp: reader_task_step_def extends_reader_loop extends_reader_loop_finally
      split: option.splits task.splits)

lemma extends_set_heartbeat: "extends s (set_heartbeat pt s)"
  by (auto simp: set_heartbeat_def extends_task split: option.splits task.splits)

lemma extends_heartbeat_loop_head: "extends s (heartbeat_loop_head s)"
  by (simp add: heartbeat_loop_head_def extends_task extends_set_heartbeat)

lemma extends_heartbeat_continue: "extends s (heartbeat_continue s)"
  by (auto simp: heartbeat_continue_def extends_task extends_heartbeat_loop_head
      split: option.splits task.splits hb_point.splits call.splits)

lemma extends_new_dict: "extends s (s\<lparr>dicts := dicts s @ [d]\<rparr>)"
  by (simp add: extends_def nth_append)

lemma extends_heartbeat_request: "extends s (heartbeat_request s)"
proof -
  let ?s1 = "s\<lparr>dicts := dicts s @ [[(''type'', JStr ''heartbeat'')]]\<rparr>"
  obtain c s2 where sr: "send_request (length (dicts s)) ?s1 = (c, s2)"
    by (cases "send_request (length (dicts s)) ?s1")
  have e0: "extends s ?s1" by (rule extends_new_dict)
  have "extends ?s1 (snd (send_request (length (dicts s)) ?s1))" by (rule extends_send_request)
  then have e1: "extends s s2"
    using extends_trans [OF e0] sr by simp
  have e2: "extends s2 (heartbeat_continue (set_heartbeat (Requesting (length (calls s2))) (s2\<lparr>calls := calls s2 @ [c]\<rparr>)))"
    using extends_trans [OF extends_append_call extends_trans [OF extends_set_heartbeat extends_heartbeat_continue]]
    by blast
  show ?thesis
    using extends_trans [OF e1 e2] sr by (simp add: heartbeat_request_def Let_def)
qed

lemma extends_heartbeat_loop: "extends s (heartbeat_loop s)"
proof -
  have c: "extends s (heartbeat_continue (send_request_cancelled cid (s\<lparr>heartbeat_task := x\<rparr>)))" for cid x
    using extends_trans [OF extends_task(2) extends_trans [OF extends_send_request_cancelled extends_heartbeat_continue]]
    by blast
  show ?thesis
    by (auto simp: heartbeat_loop_def c extends_task extends_heartbeat_loop_head extends_heartbeat_request
        split: option.splits task.splits hb_point.splits)
qed

lemma extends_feed: "extends s (feed f s)"
  by (auto simp: feed_def extends_task split: option.splits)

lemma extends_step: "extends s (step e s)"
proof (cases e)
  case (NewDict d)
  then show ?thesis by (simp add: extends_new_dict)
next
  case Connect
  then show ?thesis by (simp add: connect_def extends_append_call)
next
  case (Opened cid r)
  then show ?thesis
    using extends_trans [OF extends_connect_resume extends_trans [OF extends_send_request_opened extends_heartbeat_continue]]
    by (cases "r = Some CancelledError") simp_all
next
  case (Send p)
  obtain c s' where sr: "send_request p s = (c, s')" by (cases "send_request p s")
  then have "extends s (s'\<lparr>calls := calls s' @ [c]\<rparr>)"
    using extends_trans [OF extends_send_request extends_append_call, of s p] by simp
  then show ?thesis using Send sr by simp
next
  case (Drained cid r)
  then show ?thesis
    using extends_trans [OF extends_send_request_drained extends_heartbeat_continue]
    by (cases "r = Some CancelledError") simp_all
next
  case (Wake cid)
  then show ?thesis
    using extends_trans [OF extends_send_request_resume extends_heartbeat_continue] by simp
next
  case (Timeout cid)
  then show ?thesis
    using extends_trans [OF extends_send_request_resume extends_heartbeat_continue] by simp
next
  case Close
  then show ?thesis by (simp add: extends_close)
next
  case CloseResume
  then show ?thesis by (simp add: extends_close_resume)
next
  case ReaderStep
  then show ?thesis by (simp add: extends_reader_task_step)
next
  case HeartbeatStep
  then show ?thesis by (simp add: extends_heartbeat_loop)
next
  case (Feed data)
  then show ?thesis by (simp add: extends_feed)
next
  case FeedEof
  then show ?thesis by (simp add: extends_feed)
next
  case (ConnectionLost x)
  then show ?thesis by (simp add: extends_feed)
qed

lemma extends_run: "extends s (run es s)"
proof (induction es arbitrary: s)
  case Nil
  then show ?case by (simp add: run_def)
next
  case (Cons e es)
  have "run (e # es) s = run es (step e s)" by (simp add: run_def)
  then show ?case using extends_trans [OF extends_step Cons.IH] by simp
qed

lemma fold_fail_nth:
  "r < length fs \<Longrightarrow>
   fold (\<lambda>fut fs. if \<not> is_done (fs ! fut) then fs[fut := Exception e] else fs) rs fs ! r
     = (if r \<in> set rs \<and> \<not> is_done (fs ! r) then Exception e else fs ! r)"
proof (induction rs arbitrary: fs)
  case Nil
  then show ?case by simp
next
  case (Cons a rs)
  let ?fs' = "if \<not> is_done (fs ! a) then fs[a := Exception e] else fs"
  have len: "r < length ?fs'" using Cons.prems by simp
  have ih: "fold (\<lambda>fut fs. if \<not> is_done (fs ! fut) then fs[fut := Exception e] else fs) rs ?fs' ! r
     = (if r \<in> set rs \<and> \<not> is_done (?fs' ! r) then Exception e else ?fs' ! r)"
    by (rule Cons.IH [OF len])
  show ?case
  proof (cases "a = r")
    case True
    then show ?thesis using ih Cons.prems by (auto simp: is_done_def)
  next
    case False
    then show ?thesis using ih Cons.prems by auto
  qed
qed

lemma same_task: "\<exists>t. s = s\<lparr>heartbeat_task := t\<rparr>"
  by (rule exI [of _ "heartbeat_task s"]) simp

lemma set_heartbeat_frame: "\<exists>t. set_heartbeat pt s = s\<lparr>heartbeat_task := t\<rparr>"
  using same_task [of s] by (auto simp: set_heartbeat_def split: option.splits task.splits)

lemma heartbeat_loop_head_frame: "\<exists>t. heartbeat_loop_head s = s\<lparr>heartbeat_task := t\<rparr>"
  using set_heartbeat_frame [of Sleeping s] by (auto simp: heartbeat_loop_head_def)

lemma heartbeat_continue_frame: "\<exists>t. heartbeat_continue s = s\<lparr>heartbeat_task := t\<rparr>"
proof -
  have "heartbeat_continue s = s \<or> heartbeat_continue s = heartbeat_loop_head s
        \<or> heartbeat_continue s = s\<lparr>heartbeat_task := Some Done\<rparr>"
    by (auto simp: heartbeat_continue_def split: option.splits task.splits hb_point.splits call.splits)
  then show ?thesis
    using heartbeat_loop_head_frame [of s] same_task [of s] by (elim disjE) auto
qed

lemma heartbeat_continue_fields [simp]:
  "futs (heartbeat_continue s) = futs s"
  "calls (heartbeat_continue s) = calls s"
  "response_futures (heartbeat_continue s) = response_futures s"
  "closed (heartbeat_continue s) = closed s"
  "reader (heartbeat_continue s) = reader s"
  "writer (heartbeat_continue s) = writer s"
  "receive_task (heartbeat_continue s) = receive_task s"
  "msg_id_counter (heartbeat_continue s) = msg_id_counter s"
  "dicts (heartbeat_continue s) = dicts s"
  "stdout (heartbeat_continue s) = stdout s"
  using heartbeat_continue_frame [of s] by auto

lemma fail_pending_fields [simp]:
  "calls (fail_pending e s) = calls s"
  "response_futures (fail_pending e s) = response_futures s"
  "closed (fail_pending e s) = closed s"
  "reader (fail_pending e s) = reader s"
  "writer (fail_pending e s) = writer s"
  "receive_task (fail_pending e s) = receive_task s"
  "heartbeat_task (fail_pending e s) = heartbeat_task s"
  "msg_id_counter (fail_pending e s) = msg_id_counter s"
  "dicts (fail_pending e s) = dicts s"
  "stdout (fail_pending e s) = stdout s"
  "length (futs (fail_pending e s)) = length (futs s)"
  by (simp_all add: fail_pending_def fold_fail_length)

lemma fail_pending_nth:
  "r < length (futs s) \<Longrightarrow>
   futs (fail_pending e s) ! r
     = (if r \<in> snd ` set (response_futures s) \<and> \<not> is_done (futs s ! r) then Exception e
        else futs s ! r)"
  by (simp add: fail_pending_def fold_fail_nth)


subsection \<open>A run used as an example\<close>


definition reply_frame :: bytes where
  \<open>reply_frame = [CHR 0x00, CHR 0x00, CHR 0x00, CHR 0x0E] @ ''{"reply_to":1}''\<close>

definition one_waiting :: client where
  "one_waiting = run [NewDict [(''type'', JStr ''echo'')], Send 0, Opened 0 None, Drained 0 None] init"


lemma one_waiting_fields:
  "calls one_waiting = [AwaitFuture 1 0]" "futs one_waiting = [Pending]"
  "response_futures one_waiting = [(''1'', 0)]"
  by code_simp+


lemma send_request_resume_timeout:
  assumes "cid < length (calls s)" and "calls s ! cid = AwaitFuture m f"
    and "f < length (futs s)" and "futs s ! f = Pending"
  shows "send_request_resume True cid s =
           s\<lparr>futs := (futs s)[f := Cancelled],
             response_futures := AList.delete (str_int m) (response_futures s),
             calls := (calls s)[cid := Raise TimeoutError]\<rparr>"
  using assms by (simp add: send_request_resume_def wait_for_def)

lemma py_str_JInt [simp]: "py_str (JInt m) = str_int m"
  by (simp add: py_str_def)

subsection \<open>Decimal numerals are read back\<close>

lemma digit_val_digit_char: "0 \<le> d \<Longrightarrow> d < 10 \<Longrightarrow> digit_val (digit_char d) = d"
  by (simp add: digit_val_def digit_char_def)

lemma is_digit_digit_char: "0 \<le> d \<Longrightarrow> d < 10 \<Longrightarrow> is_digit (digit_char d)"
proof -
  assume a: "0 \<le> d" "d < 10"
  have "(of_char (char_of (48 + d)) :: int) = 48 + d" using a by simp
  then have "int (of_char (digit_char d) :: nat) = 48 + d"
    by (simp add: digit_char_def of_nat_of_char)
  then show ?thesis using a by (simp add: is_digit_def)
qed

lemma int_of_digits_snoc: "int_of_digits (ds @ [c]) = 10 * int_of_digits ds + digit_val c"
  by (simp add: int_of_digits_def)

lemma int_of_digits_str_nat: "0 \<le> n \<Longrightarrow> int_of_digits (str_nat n) = n"
proof (induction n rule: str_nat.induct)
  case (1 n)
  show ?case
  proof (cases "n < 10")
    case True
    then show ?thesis using "1.prems"
      by (simp add: str_nat.simps [of n] int_of_digits_def digit_val_digit_char)
  next
    case False
    then have "int_of_digits (str_nat (n div 10)) = n div 10"
      using "1.IH" "1.prems" by simp
    then show ?thesis using False "1.prems"
      by (simp add: str_nat.simps [of n] int_of_digits_snoc digit_val_digit_char)
  qed
qed

lemma str_nat_digits: "0 \<le> n \<Longrightarrow> str_nat n \<noteq> [] \<and> (\<forall>c \<in> set (str_nat n). is_digit c)"
proof (induction n rule: str_nat.induct)
  case (1 n)
  show ?case
  proof (cases "n < 10")
    case True
    then show ?thesis using "1.prems" by (simp add: str_nat.simps [of n] is_digit_digit_char)
  next
    case False
    then have "\<forall>c \<in> set (str_nat (n div 10)). is_digit c"
      using "1.IH" "1.prems" by simp
    then show ?thesis using False "1.prems"
      by (simp add: str_nat.simps [of n] is_digit_digit_char)
  qed
qed

lemma minus_not_digit: "\<not> is_digit (CHR ''-'')"
  by (simp add: is_digit_def)

lemma str_int_inj: "str_int i = str_int j \<Longrightarrow> i = j"
proof -
  assume e: "str_int i = str_int j"
  have hd_pos: "0 \<le> n \<Longrightarrow> hd (str_nat n) \<noteq> CHR ''-''" for n
    using str_nat_digits [of n] minus_not_digit by (cases "str_nat n") auto
  consider "i < 0" "j < 0" | "0 \<le> i" "0 \<le> j" | "i < 0" "0 \<le> j" | "0 \<le> i" "j < 0" by linarith
  then show ?thesis
  proof cases
    case 1
    then have "str_nat (- i) = str_nat (- j)" using e by (simp add: str_int_def)
    then have "int_of_digits (str_nat (- i)) = int_of_digits (str_nat (- j))" by simp
    then show ?thesis using 1 by (simp add: int_of_digits_str_nat)
  next
    case 2
    then have "str_nat i = str_nat j" using e by (simp add: str_int_def)
    then have "int_of_digits (str_nat i) = int_of_digits (str_nat j)" by simp
    then show ?thesis using 2 by (simp add: int_of_digits_str_nat)
  next
    case 3
    then have "CHR ''-'' # str_nat (- i) = str_nat j" using e by (simp add: str_int_def)
    then have "hd (str_nat j) = CHR ''-''" by (metis list.sel(1))
    then show ?thesis using hd_pos [of j] 3 by simp
  next
    case 4
    then have "str_nat i = CHR ''-'' # str_nat (- j)" using e by (simp add: str_int_def)
    then have "hd (str_nat i) = CHR ''-''" by simp
    then show ?thesis using hd_pos [of i] 4 by simp
  qed
qed

section \<open>The invariant of the registry\<close>

text \<open>
  What holds in every state a run reaches from a new client.

  \<open>reg_ok\<close>: the registry maps distinct keys to distinct futures; each key is the numeral
  of an id that has been issued; and a registered future that holds a result holds a
  message whose \<^verbatim>\<open>str(reply_to)\<close> is its key. The exception of a failed future
  is "Connection lost" or "Client closed".

  \<open>calls_ok\<close>: a call suspended in \<^verbatim>\<open>drain\<close> or \<^verbatim>\<open>wait_for\<close> has its entry in the registry and
  its future is not cancelled; two such calls have different ids.

  \<open>hb_ok\<close>: the heartbeat task has a pending \<^verbatim>\<open>cancel()\<close>, or has ended, only on a closed
  client; while it is inside \<^verbatim>\<open>send_request\<close>, that call has not finished.
\<close>

definition waiting_on :: "call \<Rightarrow> (int \<times> nat) option" where
  "waiting_on c =
     (case c of AwaitDrain m f \<Rightarrow> Some (m, f) | AwaitFuture m f \<Rightarrow> Some (m, f) | _ \<Rightarrow> None)"

definition reply_ok :: "string \<Rightarrow> json \<Rightarrow> bool" where
  "reply_ok k msg =
     (case msg of
        JDict d \<Rightarrow> dict_get d ''reply_to'' \<noteq> JNull \<and> py_str (dict_get d ''reply_to'') = k
      | _ \<Rightarrow> False)"

text \<open>The two exceptions a future is failed with.\<close>

definition lost :: "exn \<Rightarrow> bool" where
  "lost e = (e = ConnectionError ''Connection lost'' \<or> e = ConnectionError ''Client closed'')"

definition entry_ok :: "client \<Rightarrow> string \<Rightarrow> nat \<Rightarrow> bool" where
  "entry_ok s k f \<longleftrightarrow>
     f < length (futs s) \<and> (\<exists>i. 0 < i \<and> i \<le> msg_id_counter s \<and> k = str_int i) \<and>
     (\<forall>msg. futs s ! f = Result msg \<longrightarrow> reply_ok k msg)"

definition reg_ok :: "client \<Rightarrow> bool" where
  "reg_ok s \<longleftrightarrow>
     distinct (map fst (response_futures s)) \<and> distinct (map snd (response_futures s)) \<and>
     (\<forall>k f. (k, f) \<in> set (response_futures s) \<longrightarrow> entry_ok s k f) \<and>
     (\<forall>f e. f < length (futs s) \<and> futs s ! f = Exception e \<longrightarrow> lost e) \<and>
     0 \<le> msg_id_counter s"

definition calls_ok :: "client \<Rightarrow> bool" where
  "calls_ok s \<longleftrightarrow>
     (\<forall>cid m f. cid < length (calls s) \<and> waiting_on (calls s ! cid) = Some (m, f) \<longrightarrow>
        (str_int m, f) \<in> set (response_futures s) \<and> futs s ! f \<noteq> Cancelled) \<and>
     (\<forall>i j m f f'. i < length (calls s) \<and> j < length (calls s) \<and>
        waiting_on (calls s ! i) = Some (m, f) \<and> waiting_on (calls s ! j) = Some (m, f') \<longrightarrow> i = j)"

definition hb_mid :: "client \<Rightarrow> bool" where
  "hb_mid s \<longleftrightarrow>
     (case heartbeat_task s of
        None \<Rightarrow> True
      | Some Done \<Rightarrow> closed s
      | Some (Alive pt c) \<Rightarrow>
          (c \<longrightarrow> closed s) \<and>
          (case pt of
             Requesting cid \<Rightarrow>
               cid < length (calls s) \<and> (calls s ! cid = Raise CancelledError \<longrightarrow> closed s)
           | _ \<Rightarrow> True))"

definition hb_ok :: "client \<Rightarrow> bool" where
  "hb_ok s \<longleftrightarrow>
     hb_mid s \<and>
     (\<forall>cid c. heartbeat_task s = Some (Alive (Requesting cid) c) \<longrightarrow> \<not> finished (calls s ! cid))"

definition inv_mid :: "client \<Rightarrow> bool" where
  "inv_mid s \<longleftrightarrow> reg_ok s \<and> calls_ok s \<and> hb_mid s"

definition inv :: "client \<Rightarrow> bool" where
  "inv s \<longleftrightarrow> reg_ok s \<and> calls_ok s \<and> hb_ok s"

lemma inv_imp_mid: "inv s \<Longrightarrow> inv_mid s"
  by (simp add: inv_def inv_mid_def hb_ok_def)

lemma inv_init: "inv init"
  by (simp add: inv_def reg_ok_def calls_ok_def hb_ok_def hb_mid_def init_def)

text \<open>An id that is waiting has been issued.\<close>

lemma waiting_id_issued:
  "reg_ok s \<Longrightarrow> calls_ok s \<Longrightarrow> cid < length (calls s) \<Longrightarrow>
   waiting_on (calls s ! cid) = Some (m, f) \<Longrightarrow> 0 < m \<and> m \<le> msg_id_counter s \<and> f < length (futs s)"
proof -
  assume a: "reg_ok s" "calls_ok s" "cid < length (calls s)" "waiting_on (calls s ! cid) = Some (m, f)"
  then have "(str_int m, f) \<in> set (response_futures s)" by (auto simp: calls_ok_def)
  then have "entry_ok s (str_int m) f" using a(1) by (auto simp: reg_ok_def)
  then show ?thesis using str_int_inj by (auto simp: entry_ok_def)
qed

subsection \<open>Association lists\<close>

lemma update_fresh: "k \<notin> fst ` set al \<Longrightarrow> AList.update k v al = al @ [(k, v)]"
  by (induction al) auto

lemma set_delete: "set (AList.delete k al) = {kv \<in> set al. fst kv \<noteq> k}"
  by (auto simp: AList.delete_eq)

lemma distinct_snd_delete: "distinct (map snd al) \<Longrightarrow> distinct (map snd (AList.delete k al))"
  by (simp add: AList.delete_eq distinct_map_filter)

lemma distinct_fst_delete: "distinct (map fst al) \<Longrightarrow> distinct (map fst (AList.delete k al))"
  by (simp add: AList.delete_eq distinct_map_filter)

lemma distinct_snd_unique:
  "distinct (map snd al) \<Longrightarrow> (k, v) \<in> set al \<Longrightarrow> (k', v) \<in> set al \<Longrightarrow> k = k'"
  by (metis (no_types, opaque_lifting) distinct_map inj_on_def prod.collapse prod.inject snd_conv)

lemma distinct_fst_unique:
  "distinct (map fst al) \<Longrightarrow> (k, v) \<in> set al \<Longrightarrow> (k, v') \<in> set al \<Longrightarrow> v = v'"
  by (metis (no_types, opaque_lifting) distinct_map inj_on_def prod.collapse prod.inject fst_conv)

subsection \<open>Registering a request keeps the invariant\<close>

lemma fresh_key: "reg_ok s \<Longrightarrow> str_int (msg_id_counter s + 1) \<notin> fst ` set (response_futures s)"
proof
  assume r: "reg_ok s" and "str_int (msg_id_counter s + 1) \<in> fst ` set (response_futures s)"
  then obtain f where "(str_int (msg_id_counter s + 1), f) \<in> set (response_futures s)" by force
  then have "entry_ok s (str_int (msg_id_counter s + 1)) f" using r by (simp add: reg_ok_def)
  then obtain i where "i \<le> msg_id_counter s" "str_int (msg_id_counter s + 1) = str_int i"
    by (auto simp: entry_ok_def)
  then show False using str_int_inj [of "msg_id_counter s + 1" i] by simp
qed

lemma send_request_send_fields:
  "response_futures (snd (send_request_send p s)) =
     AList.update (str_int (msg_id_counter s + 1)) (length (futs s)) (response_futures s)"
  "futs (snd (send_request_send p s)) = futs s @ [Pending]"
  "msg_id_counter (snd (send_request_send p s)) = msg_id_counter s + 1"
  "closed (snd (send_request_send p s)) = closed s"
  "heartbeat_task (snd (send_request_send p s)) = heartbeat_task s"
  "receive_task (snd (send_request_send p s)) = receive_task s"
  "reader (snd (send_request_send p s)) = reader s"
  "stdout (snd (send_request_send p s)) = stdout s"
  by (simp_all add: send_request_send_def next_msg_id_def write_message_def Let_def
      split: sum.splits option.splits)

lemma encode_Exception: "encode obj = Inl e \<Longrightarrow> is_Exception e"
  by (auto simp: encode_def encode_utf8_def pack_u32_def is_Exception_def split: sum.splits if_splits)

lemma send_request_send_call:
  "fst (send_request_send p s) = AwaitDrain (msg_id_counter s + 1) (length (futs s)) \<or>
   (\<exists>e. fst (send_request_send p s) = Raise e \<and> is_Exception e)"
  by (auto simp: send_request_send_def next_msg_id_def write_message_def Let_def is_Exception_def
      dest: encode_Exception split: sum.splits option.splits)

lemma reg_ok_send_request_send: "reg_ok s \<Longrightarrow> reg_ok (snd (send_request_send p s))"
proof -
  assume r: "reg_ok s"
  let ?s' = "snd (send_request_send p s)"
  let ?k = "str_int (msg_id_counter s + 1)"
  let ?f = "length (futs s)"
  have fr: "?k \<notin> fst ` set (response_futures s)" by (rule fresh_key [OF r])
  have rf: "response_futures ?s' = response_futures s @ [(?k, ?f)]"
    by (simp add: send_request_send_fields update_fresh [OF fr])
  have old: "entry_ok s k f" if "(k, f) \<in> set (response_futures s)" for k f
    using r that by (simp add: reg_ok_def)
  have lt: "f < length (futs s)" if "(k, f) \<in> set (response_futures s)" for k f
    using old [OF that] by (simp add: entry_ok_def)
  have d1: "distinct (map fst (response_futures ?s'))"
    using r fr by (simp add: rf reg_ok_def)
  have "?f \<notin> snd ` set (response_futures s)" using lt by force
  then have d2: "distinct (map snd (response_futures ?s'))"
    using r by (simp add: rf reg_ok_def)
  have c0: "0 \<le> msg_id_counter s" using r by (simp add: reg_ok_def)
  have e1: "entry_ok ?s' k f" if "(k, f) \<in> set (response_futures ?s')" for k f
  proof (cases "(k, f) \<in> set (response_futures s)")
    case True
    then show ?thesis
      using old [OF True] by (auto simp: entry_ok_def send_request_send_fields nth_append)
  next
    case False
    then have "k = ?k" "f = ?f" using that by (simp_all add: rf)
    then show ?thesis
      using c0 by (auto simp: entry_ok_def send_request_send_fields intro!: exI [of _ "msg_id_counter s + 1"])
  qed
  have x: "lost e" if "f < length (futs ?s')" "futs ?s' ! f = Exception e" for f e
  proof -
    have "f < length (futs s)"
      using that by (cases "f = length (futs s)") (auto simp: send_request_send_fields)
    then show ?thesis using that r by (auto simp: reg_ok_def send_request_send_fields nth_append)
  qed
  show ?thesis
    using d1 d2 e1 x c0 unfolding reg_ok_def [of ?s'] by (simp add: send_request_send_fields(3)) blast
qed

lemma calls_ok_send_request_send:
  "reg_ok s \<Longrightarrow> calls_ok s \<Longrightarrow> calls_ok (snd (send_request_send p s))"
proof -
  assume r: "reg_ok s" and c: "calls_ok s"
  let ?s' = "snd (send_request_send p s)"
  have fr: "str_int (msg_id_counter s + 1) \<notin> fst ` set (response_futures s)" by (rule fresh_key [OF r])
  have rf: "response_futures ?s' = response_futures s @ [(str_int (msg_id_counter s + 1), length (futs s))]"
    by (simp add: send_request_send_fields update_fresh [OF fr])
  have w: "(str_int m, f) \<in> set (response_futures ?s') \<and> futs ?s' ! f \<noteq> Cancelled"
    if "cid < length (calls s)" "waiting_on (calls s ! cid) = Some (m, f)" for cid m f
  proof -
    have "(str_int m, f) \<in> set (response_futures s)" "futs s ! f \<noteq> Cancelled"
      using c that by (auto simp: calls_ok_def)
    moreover have "f < length (futs s)" using waiting_id_issued [OF r c that] by simp
    ultimately show ?thesis by (simp add: rf send_request_send_fields(2) nth_append)
  qed
  show ?thesis
    using c w unfolding calls_ok_def [of ?s'] by (simp add: calls_ok_def) blast
qed

lemma hb_mid_send_request_send: "hb_mid (snd (send_request_send p s)) = hb_mid s"
  by (simp add: hb_mid_def send_request_send_fields
      cong: option.case_cong task.case_cong hb_point.case_cong)

text \<open>The call that results can be put among the calls.\<close>

lemma new_waiter:
  assumes "reg_ok s" and "calls_ok s"
  shows "(str_int (msg_id_counter s + 1), length (futs s)) \<in> set (response_futures (snd (send_request_send p s)))"
    and "futs (snd (send_request_send p s)) ! length (futs s) = Pending"
    and "cid < length (calls s) \<Longrightarrow> waiting_on (calls s ! cid) \<noteq> Some (msg_id_counter s + 1, f')"
proof -
  have fr: "str_int (msg_id_counter s + 1) \<notin> fst ` set (response_futures s)"
    by (rule fresh_key [OF assms(1)])
  show "(str_int (msg_id_counter s + 1), length (futs s)) \<in> set (response_futures (snd (send_request_send p s)))"
    by (simp add: send_request_send_fields update_fresh [OF fr])
  show "futs (snd (send_request_send p s)) ! length (futs s) = Pending"
    by (simp add: send_request_send_fields)
  show "waiting_on (calls s ! cid) \<noteq> Some (msg_id_counter s + 1, f')" if "cid < length (calls s)"
    using waiting_id_issued [OF assms that, of "msg_id_counter s + 1" f'] by auto
qed

subsection \<open>Changing the calls\<close>

lemma reg_ok_calls [simp]: "reg_ok (s\<lparr>calls := x\<rparr>) = reg_ok s"
  by (simp add: reg_ok_def entry_ok_def)

lemma nth_update_if: "xs[i := x] ! j = (if i = j \<and> i < length xs then x else xs ! j)"
  by (cases "i < length xs") (auto simp: nth_list_update list_update_beyond)

lemma calls_ok_put:
  assumes "calls_ok s"
    and "\<And>m f. waiting_on c = Some (m, f) \<Longrightarrow>
           (str_int m, f) \<in> set (response_futures s) \<and> futs s ! f \<noteq> Cancelled \<and>
           (\<forall>j f'. j < length (calls s) \<longrightarrow> waiting_on (calls s ! j) \<noteq> Some (m, f'))"
  shows "calls_ok (s\<lparr>calls := (calls s)[cid := c]\<rparr>)"
    and "calls_ok (s\<lparr>calls := calls s @ [c]\<rparr>)"
proof -
  have a1: "(str_int m, f) \<in> set (response_futures s) \<and> futs s ! f \<noteq> Cancelled"
    if "i < length (calls s)" "waiting_on (calls s ! i) = Some (m, f)" for i m f
    using assms(1) that by (auto simp: calls_ok_def)
  have a2: "i = j"
    if "i < length (calls s)" "j < length (calls s)" "waiting_on (calls s ! i) = Some (m, f)"
       "waiting_on (calls s ! j) = Some (m, f')" for i j m f f'
    using assms(1) that unfolding calls_ok_def by blast
  have n: "waiting_on (calls s ! j) \<noteq> Some (m, f')"
    if "waiting_on c = Some (m, f)" "j < length (calls s)" for m f j f'
    using assms(2) [OF that(1)] that(2) by blast
  let ?u = "(calls s)[cid := c]"
  have u1: "(str_int m, f) \<in> set (response_futures s) \<and> futs s ! f \<noteq> Cancelled"
    if "i < length (calls s)" "waiting_on (?u ! i) = Some (m, f)" for i m f
  proof (cases "i = cid")
    case True
    then show ?thesis using that assms(2) [of m f] by simp
  next
    case False
    then show ?thesis using that a1 [of i m f] by simp
  qed
  have u2: "i = j"
    if "i < length (calls s)" "j < length (calls s)" "waiting_on (?u ! i) = Some (m, f)"
       "waiting_on (?u ! j) = Some (m, f')" for i j m f f'
  proof (cases "i = cid")
    case True
    then have "waiting_on c = Some (m, f)" using that by simp
    then show ?thesis using n [of m f j f'] that True by (cases "j = cid") auto
  next
    case False
    show ?thesis
    proof (cases "j = cid")
      case True
      then have "waiting_on c = Some (m, f')" using that by simp
      then show ?thesis using n [of m f' i f] that False by auto
    next
      case nj: False
      then show ?thesis using that False a2 [of i j m f f'] by auto
    qed
  qed
  show "calls_ok (s\<lparr>calls := ?u\<rparr>)"
    unfolding calls_ok_def using u1 u2 by simp blast
  let ?a = "calls s @ [c]"
  have v1: "(str_int m, f) \<in> set (response_futures s) \<and> futs s ! f \<noteq> Cancelled"
    if "i < Suc (length (calls s))" "waiting_on (?a ! i) = Some (m, f)" for i m f
  proof (cases "i < length (calls s)")
    case True
    then show ?thesis using that a1 [of i m f] by (simp add: nth_append)
  next
    case False
    then have "i = length (calls s)" using that by simp
    then show ?thesis using that assms(2) [of m f] by (simp add: nth_append)
  qed
  have v2: "i = j"
    if "i < Suc (length (calls s))" "j < Suc (length (calls s))" "waiting_on (?a ! i) = Some (m, f)"
       "waiting_on (?a ! j) = Some (m, f')" for i j m f f'
  proof (cases "i < length (calls s)")
    case True
    show ?thesis
    proof (cases "j < length (calls s)")
      case tj: True
      then show ?thesis using that True a2 [of i j m f f'] by (simp add: nth_append)
    next
      case False
      then have j: "j = length (calls s)" using that by simp
      then have "waiting_on c = Some (m, f')" using that by (simp add: nth_append)
      then show ?thesis using n [of m f' i f] that True by (simp add: nth_append)
    qed
  next
    case False
    then have i: "i = length (calls s)" using that by simp
    then have "waiting_on c = Some (m, f)" using that by (simp add: nth_append)
    then show ?thesis using n [of m f j f'] that i by (cases "j < length (calls s)") (auto simp: nth_append)
  qed
  show "calls_ok (s\<lparr>calls := ?a\<rparr>)"
    unfolding calls_ok_def using v1 v2 by simp blast
qed

lemma calls_ok_set_same:
  "calls_ok s \<Longrightarrow> cid < length (calls s) \<Longrightarrow> waiting_on c = waiting_on (calls s ! cid) \<Longrightarrow>
   calls_ok (s\<lparr>calls := (calls s)[cid := c]\<rparr>)"
proof -
  assume a: "calls_ok s" "cid < length (calls s)" "waiting_on c = waiting_on (calls s ! cid)"
  have "waiting_on ((calls s)[cid := c] ! i) = waiting_on (calls s ! i)" if "i < length (calls s)" for i
    using a(2,3) that by (cases "i = cid") auto
  then show ?thesis using a(1) unfolding calls_ok_def by (simp cong: conj_cong)
qed

lemma hb_mid_set_call:
  "hb_mid s \<Longrightarrow> (c = Raise CancelledError \<longrightarrow> closed s) \<Longrightarrow> hb_mid (s\<lparr>calls := (calls s)[cid := c]\<rparr>)"
  by (auto simp: hb_mid_def nth_update_if split: option.splits task.splits hb_point.splits if_splits)

lemma hb_mid_append_call: "hb_mid s \<Longrightarrow> hb_mid (s\<lparr>calls := calls s @ [c]\<rparr>)"
  by (auto simp: hb_mid_def nth_append split: option.splits task.splits hb_point.splits)

lemma hb_ok_append_call: "hb_ok s \<Longrightarrow> hb_ok (s\<lparr>calls := calls s @ [c]\<rparr>)"
  by (auto simp: hb_ok_def hb_mid_def nth_append split: option.splits task.splits hb_point.splits)

subsection \<open>The calls keep the invariant\<close>

lemma waiting_on_finished [simp]:
  "waiting_on (Raise e) = None" "waiting_on (Return v) = None"
  "waiting_on AwaitOpen = None" "waiting_on (AwaitConnect p) = None"
  "waiting_on (AwaitDrain m f) = Some (m, f)" "waiting_on (AwaitFuture m f) = Some (m, f)"
  by (simp_all add: waiting_on_def)

lemma inv_mid_send_request_send:
  assumes "inv_mid s"
  shows "inv_mid ((snd (send_request_send p s))
           \<lparr>calls := (calls (snd (send_request_send p s)))[cid := fst (send_request_send p s)]\<rparr>)"
    and "inv_mid ((snd (send_request_send p s))
           \<lparr>calls := calls (snd (send_request_send p s)) @ [fst (send_request_send p s)]\<rparr>)"
proof -
  let ?s' = "snd (send_request_send p s)" and ?c = "fst (send_request_send p s)"
  have r: "reg_ok s" and c: "calls_ok s" and h: "hb_mid s" using assms by (simp_all add: inv_mid_def)
  have r': "reg_ok ?s'" by (rule reg_ok_send_request_send [OF r])
  have c': "calls_ok ?s'" by (rule calls_ok_send_request_send [OF r c])
  have h': "hb_mid ?s'" using h by (simp add: hb_mid_send_request_send)
  have nc: "?c \<noteq> Raise CancelledError"
    using send_request_send_call [of p s] by (auto simp: is_Exception_def)
  have w: "(str_int m, f) \<in> set (response_futures ?s') \<and> futs ?s' ! f \<noteq> Cancelled \<and>
           (\<forall>j f'. j < length (calls ?s') \<longrightarrow> waiting_on (calls ?s' ! j) \<noteq> Some (m, f'))"
    if "waiting_on ?c = Some (m, f)" for m f
  proof -
    have mf: "m = msg_id_counter s + 1" "f = length (futs s)"
      using send_request_send_call [of p s] that by auto
    show ?thesis
      using new_waiter(1) [OF r c, of p] new_waiter(2) [OF r c, of p] new_waiter(3) [OF r c]
      by (simp add: mf)
  qed
  show "inv_mid (?s'\<lparr>calls := (calls ?s')[cid := ?c]\<rparr>)"
    using r' calls_ok_put(1) [OF c' w] hb_mid_set_call [OF h', of ?c cid] nc
    by (simp add: inv_mid_def)
  show "inv_mid (?s'\<lparr>calls := calls ?s' @ [?c]\<rparr>)"
    using r' calls_ok_put(2) [OF c' w] hb_mid_append_call [OF h']
    by (simp add: inv_mid_def)
qed

lemma inv_mid_connect_opened: "inv_mid s \<Longrightarrow> inv_mid (connect_opened s)"
  by (simp add: inv_mid_def reg_ok_def entry_ok_def calls_ok_def hb_mid_def connect_opened_def)

lemma send_request_cases:
  "send_request p s = (Raise (ConnectionError ''Client is closed''), s) \<or>
   send_request p s = (AwaitConnect p, s) \<or>
   send_request p s = send_request_send p s"
  by (simp add: send_request_def connect_def)

lemma inv_mid_send_request:
  assumes "inv_mid s"
  shows "inv_mid ((snd (send_request p s))\<lparr>calls := calls (snd (send_request p s)) @ [fst (send_request p s)]\<rparr>)"
proof -
  have plain: "inv_mid (s\<lparr>calls := calls s @ [c]\<rparr>)" if "waiting_on c = None" for c
    using assms calls_ok_put(2) [of s c] hb_mid_append_call [of s c] that by (simp add: inv_mid_def)
  show ?thesis
    using send_request_cases [of p s] plain inv_mid_send_request_send(2) [OF assms, of p]
    by (elim disjE) simp_all
qed

lemma send_request_not_cancelled: "fst (send_request p s) \<noteq> Raise CancelledError"
  using send_request_cases [of p s] send_request_send_call [of p s]
  by (auto simp: is_Exception_def)

lemma inv_mid_set_plain:
  "inv_mid s \<Longrightarrow> waiting_on c = None \<Longrightarrow> c \<noteq> Raise CancelledError \<or> closed s \<Longrightarrow>
   inv_mid (s\<lparr>calls := (calls s)[cid := c]\<rparr>)"
  using calls_ok_put(1) [of s c cid] hb_mid_set_call [of s c cid] by (auto simp: inv_mid_def)

lemma inv_mid_connect_resume:
  "inv_mid s \<Longrightarrow> r \<noteq> Some CancelledError \<Longrightarrow> inv_mid (connect_resume cid r s)"
proof -
  assume a: "inv_mid s" "r \<noteq> Some CancelledError"
  have "inv_mid ((connect_opened s)\<lparr>calls := (calls (connect_opened s))[cid := Return JNull]\<rparr>)"
    using inv_mid_set_plain [OF inv_mid_connect_opened [OF a(1)], of "Return JNull" cid] by simp
  then have o: "inv_mid ((connect_opened s)\<lparr>calls := (calls s)[cid := Return JNull]\<rparr>)" by simp
  have e: "inv_mid (s\<lparr>calls := (calls s)[cid := Raise e]\<rparr>)" if "r = Some e" for e
    using inv_mid_set_plain [OF a(1), of "Raise e" cid] a(2) that by simp
  show ?thesis
    using a(1) o e by (auto simp: connect_resume_def split: call.splits option.splits)
qed

lemma inv_mid_send_request_opened:
  "inv_mid s \<Longrightarrow> r \<noteq> Some CancelledError \<Longrightarrow> inv_mid (send_request_opened cid r s)"
proof -
  assume a: "inv_mid s" "r \<noteq> Some CancelledError"
  have e: "inv_mid (s\<lparr>calls := (calls s)[cid := Raise e]\<rparr>)" if "r = Some e" for e
    using inv_mid_set_plain [OF a(1), of "Raise e" cid] a(2) that by simp
  have o: "inv_mid (s'\<lparr>calls := (calls s')[cid := c]\<rparr>)"
    if "send_request_send p (connect_opened s) = (c, s')" for p c s'
    using inv_mid_send_request_send(1) [OF inv_mid_connect_opened [OF a(1)], of p cid] that by simp
  show ?thesis
    using a(1) o e by (auto simp: send_request_opened_def split: call.splits option.splits prod.splits)
qed

lemma inv_mid_send_request_drained:
  "inv_mid s \<Longrightarrow> r \<noteq> Some CancelledError \<Longrightarrow> inv_mid (send_request_drained cid r s)"
proof -
  assume a: "inv_mid s" "r \<noteq> Some CancelledError"
  have e: "inv_mid (s\<lparr>calls := (calls s)[cid := Raise e]\<rparr>)" if "r = Some e" for e
    using inv_mid_set_plain [OF a(1), of "Raise e" cid] a(2) that by simp
  have o: "inv_mid (s\<lparr>calls := (calls s)[cid := AwaitFuture m f]\<rparr>)"
    if "cid < length (calls s)" "calls s ! cid = AwaitDrain m f" for m f
    using a(1) calls_ok_set_same [of s cid "AwaitFuture m f"] hb_mid_set_call [of s "AwaitFuture m f" cid] that
    by (simp add: inv_mid_def)
  show ?thesis
    using a(1) o e by (auto simp: send_request_drained_def split: call.splits option.splits)
qed

subsection \<open>Leaving \<^verbatim>\<open>wait_for\<close> keeps the invariant\<close>

text \<open>The \<^verbatim>\<open>finally\<close> of a call waiting for future \<open>f\<close> under id \<open>m\<close>: the entry is popped,
  the future may have been cancelled, the call has finished.\<close>

lemma leave_wait:
  assumes "inv_mid s" and "cid < length (calls s)" and "waiting_on (calls s ! cid) = Some (m, f)"
    and "fs = futs s \<or> fs = (futs s)[f := Cancelled]"
    and "waiting_on c = None" and "c \<noteq> Raise CancelledError \<or> closed s"
  shows "inv_mid (s\<lparr>futs := fs, response_futures := AList.delete (str_int m) (response_futures s),
                    calls := (calls s)[cid := c]\<rparr>)"
proof -
  let ?rf = "response_futures s" and ?rf' = "AList.delete (str_int m) (response_futures s)"
  let ?s1 = "s\<lparr>futs := fs, response_futures := ?rf'\<rparr>"
  have r: "reg_ok s" and co: "calls_ok s" and h: "hb_mid s" using assms(1) by (simp_all add: inv_mid_def)
  have mf: "(str_int m, f) \<in> set ?rf" using co assms(2,3) by (auto simp: calls_ok_def)
  have len: "length fs = length (futs s)" using assms(4) by auto
  have d1: "distinct (map fst ?rf)" and d2: "distinct (map snd ?rf)" using r by (simp_all add: reg_ok_def)
  have other: "f' \<noteq> f" if "(k, f') \<in> set ?rf'" for k f'
  proof
    assume "f' = f"
    then have "(k, f) \<in> set ?rf" "k \<noteq> str_int m" using that by (auto simp: set_delete)
    then show False using distinct_snd_unique [OF d2 mf] by blast
  qed
  have same: "fs ! f' = futs s ! f'" if "f' \<noteq> f" for f'
    using assms(4) that by auto
  have e: "entry_ok ?s1 k f'" if "(k, f') \<in> set ?rf'" for k f'
  proof -
    have "(k, f') \<in> set ?rf" using that by (simp add: set_delete)
    then have "entry_ok s k f'" using r by (simp add: reg_ok_def)
    then show ?thesis using same [OF other [OF that]] len by (simp add: entry_ok_def)
  qed
  have x: "lost e" if "f' < length fs" "fs ! f' = Exception e" for f' e
  proof (cases "f' = f")
    case True
    then have "futs s ! f = Exception e" using assms(4) that by (auto simp: nth_update_if split: if_splits)
    then show ?thesis using r that len True by (auto simp: reg_ok_def)
  next
    case False
    then show ?thesis using r that len same [OF False] by (auto simp: reg_ok_def)
  qed
  have r1: "reg_ok ?s1"
    unfolding reg_ok_def
    using distinct_fst_delete [OF d1] distinct_snd_delete [OF d2] e x r
    by (simp add: reg_ok_def) blast
  have w1: "(str_int m', f') \<in> set ?rf' \<and> fs ! f' \<noteq> Cancelled"
    if "i < length (calls s)" "i \<noteq> cid" "waiting_on (calls s ! i) = Some (m', f')" for i m' f'
  proof -
    have in_rf: "(str_int m', f') \<in> set ?rf" and nc: "futs s ! f' \<noteq> Cancelled"
      using co that by (auto simp: calls_ok_def)
    have "m' \<noteq> m"
    proof
      assume "m' = m"
      then have "i = cid" using co that assms(2,3) unfolding calls_ok_def by blast
      then show False using that by simp
    qed
    then have k: "str_int m' \<noteq> str_int m" using str_int_inj by blast
    then have in': "(str_int m', f') \<in> set ?rf'" using in_rf by (simp add: set_delete)
    show ?thesis using in' nc same [OF other [OF in']] by simp
  qed
  let ?u = "(calls s)[cid := c]"
  have u0: "i \<noteq> cid \<and> waiting_on (calls s ! i) = Some (m', f')"
    if "i < length (calls s)" "waiting_on (?u ! i) = Some (m', f')" for i m' f'
    using that assms(5) by (cases "i = cid") auto
  have u1: "(str_int m', f') \<in> set ?rf' \<and> fs ! f' \<noteq> Cancelled"
    if "i < length (calls s)" "waiting_on (?u ! i) = Some (m', f')" for i m' f'
    using u0 [OF that] w1 [of i m' f'] that(1) by blast
  have u2: "i = j"
    if "i < length (calls s)" "j < length (calls s)" "waiting_on (?u ! i) = Some (m', f1)"
       "waiting_on (?u ! j) = Some (m', f2)" for i j m' f1 f2
    using u0 [OF that(1,3)] u0 [OF that(2,4)] that(1,2) co unfolding calls_ok_def by blast
  have c1: "calls_ok (?s1\<lparr>calls := ?u\<rparr>)"
    unfolding calls_ok_def using u1 u2 by simp blast
  have h1: "hb_mid (?s1\<lparr>calls := (calls s)[cid := c]\<rparr>)"
    using hb_mid_set_call [OF h, of c cid] assms(6)
    by (auto simp: hb_mid_def split: option.splits task.splits hb_point.splits)
  have "s\<lparr>futs := fs, response_futures := ?rf', calls := (calls s)[cid := c]\<rparr>
        = ?s1\<lparr>calls := (calls s)[cid := c]\<rparr>" by simp
  then show ?thesis using r1 c1 h1 by (simp add: inv_mid_def)
qed

lemma leave_wait_same:
  assumes "inv_mid s" and "cid < length (calls s)" and "waiting_on (calls s ! cid) = Some (m, f)"
    and "waiting_on c = None" and "c \<noteq> Raise CancelledError \<or> closed s"
  shows "inv_mid (s\<lparr>response_futures := AList.delete (str_int m) (response_futures s),
                    calls := (calls s)[cid := c]\<rparr>)"
proof -
  have "s\<lparr>futs := futs s, response_futures := AList.delete (str_int m) (response_futures s),
          calls := (calls s)[cid := c]\<rparr>
        = s\<lparr>response_futures := AList.delete (str_int m) (response_futures s),
            calls := (calls s)[cid := c]\<rparr>" by simp
  then show ?thesis using leave_wait [OF assms(1,2,3) _ assms(4,5), of "futs s"] by simp
qed

lemma waiting_future_state:
  assumes "inv_mid s" and "cid < length (calls s)" and "waiting_on (calls s ! cid) = Some (m, f)"
  shows "futs s ! f \<noteq> Cancelled" and "futs s ! f = Exception e \<Longrightarrow> e \<noteq> CancelledError"
proof -
  have r: "reg_ok s" and co: "calls_ok s" using assms(1) by (simp_all add: inv_mid_def)
  show "futs s ! f \<noteq> Cancelled" using co assms(2,3) by (auto simp: calls_ok_def)
  have "f < length (futs s)" using waiting_id_issued [OF r co assms(2,3)] by simp
  then show "e \<noteq> CancelledError" if "futs s ! f = Exception e"
    using r that by (auto simp: reg_ok_def is_Exception_def lost_def)
qed

lemma inv_mid_send_request_resume: "inv_mid s \<Longrightarrow> inv_mid (send_request_resume timer cid s)"
proof (cases "cid < length (calls s) \<and> (\<exists>m f. calls s ! cid = AwaitFuture m f)")
  case True
  assume a: "inv_mid s"
  from True obtain m f where lt: "cid < length (calls s)" and c: "calls s ! cid = AwaitFuture m f" by blast
  then have w: "waiting_on (calls s ! cid) = Some (m, f)" by simp
  note fs = waiting_future_state [OF a lt w]
  show ?thesis
  proof (cases "futs s ! f")
    case Pending
    show ?thesis
    proof (cases timer)
      case True
      have "inv_mid (s\<lparr>futs := (futs s)[f := Cancelled],
                response_futures := AList.delete (str_int m) (response_futures s),
                calls := (calls s)[cid := Raise TimeoutError]\<rparr>)"
        by (rule leave_wait [OF a lt w]) simp_all
      then show ?thesis using lt c Pending True by (simp add: send_request_resume_def wait_for_def)
    next
      case False
      then show ?thesis using a lt c Pending by (simp add: send_request_resume_def wait_for_def)
    qed
  next
    case (Result v)
    have "inv_mid (s\<lparr>response_futures := AList.delete (str_int m) (response_futures s),
              calls := (calls s)[cid := Return v]\<rparr>)"
      by (rule leave_wait_same [OF a lt w]) simp_all
    then show ?thesis using lt c Result by (simp add: send_request_resume_def wait_for_def)
  next
    case (Exception e)
    have "inv_mid (s\<lparr>response_futures := AList.delete (str_int m) (response_futures s),
              calls := (calls s)[cid := Raise e]\<rparr>)"
      using fs(2) [OF Exception] by (intro leave_wait_same [OF a lt w]) simp_all
    then show ?thesis using lt c Exception by (simp add: send_request_resume_def wait_for_def)
  next
    case Cancelled
    then show ?thesis using fs(1) by simp
  qed
next
  case False
  assume "inv_mid s"
  then show ?thesis using False by (auto simp: send_request_resume_def split: call.splits)
qed

lemma inv_mid_send_request_cancelled:
  "inv_mid s \<Longrightarrow> closed s \<Longrightarrow> inv_mid (send_request_cancelled cid s)"
proof (cases "cid < length (calls s)")
  case True
  assume a: "inv_mid s" and cl: "closed s"
  have plain: "inv_mid (s\<lparr>calls := (calls s)[cid := Raise CancelledError]\<rparr>)"
    using inv_mid_set_plain [OF a, of "Raise CancelledError" cid] cl by simp
  show ?thesis
  proof (cases "calls s ! cid")
    case (AwaitFuture m f)
    then have w: "waiting_on (calls s ! cid) = Some (m, f)" by simp
    have l1: "inv_mid (s\<lparr>response_futures := AList.delete (str_int m) (response_futures s),
              calls := (calls s)[cid := c]\<rparr>)" if "waiting_on c = None" for c
      using leave_wait_same [OF a True w that] cl by simp
    have l2: "inv_mid (s\<lparr>futs := (futs s)[f := Cancelled],
              response_futures := AList.delete (str_int m) (response_futures s),
              calls := (calls s)[cid := Raise CancelledError]\<rparr>)"
      using leave_wait [OF a True w, of "(futs s)[f := Cancelled]" "Raise CancelledError"] cl by simp
    have sw: "s\<lparr>response_futures := x, futs := y, calls := z\<rparr> = s\<lparr>futs := y, response_futures := x, calls := z\<rparr>"
      for x y z by simp
    show ?thesis
      using True AwaitFuture l1 l2
      by (cases "futs s ! f") (simp_all add: send_request_cancelled_def Let_def sw)
  qed (use True a plain in \<open>simp_all add: send_request_cancelled_def\<close>)
next
  case False
  assume "inv_mid s"
  then show ?thesis using False by (simp add: send_request_cancelled_def)
qed

subsection \<open>Failing and fulfilling futures keeps the invariant\<close>

lemma hb_mid_eqI:
  "heartbeat_task s' = heartbeat_task s \<Longrightarrow> closed s' = closed s \<Longrightarrow> calls s' = calls s \<Longrightarrow>
   hb_mid s' = hb_mid s"
  by (simp add: hb_mid_def cong: option.case_cong task.case_cong hb_point.case_cong)

lemma hb_mid_fields [simp]:
  "hb_mid (s\<lparr>futs := x1\<rparr>) = hb_mid s"
  "hb_mid (s\<lparr>stdout := x2\<rparr>) = hb_mid s"
  "hb_mid (s\<lparr>reader := x3\<rparr>) = hb_mid s"
  "hb_mid (s\<lparr>writer := x4\<rparr>) = hb_mid s"
  "hb_mid (s\<lparr>receive_task := x5\<rparr>) = hb_mid s"
  "hb_mid (s\<lparr>dicts := x6\<rparr>) = hb_mid s"
  "hb_mid (s\<lparr>response_futures := x7\<rparr>) = hb_mid s"
  "hb_mid (s\<lparr>msg_id_counter := x8\<rparr>) = hb_mid s"
  by (rule hb_mid_eqI; simp)+

lemma reg_ok_fields [simp]:
  "reg_ok (s\<lparr>stdout := x2\<rparr>) = reg_ok s"
  "reg_ok (s\<lparr>reader := x3\<rparr>) = reg_ok s"
  "reg_ok (s\<lparr>writer := x4\<rparr>) = reg_ok s"
  "reg_ok (s\<lparr>receive_task := x5\<rparr>) = reg_ok s"
  "reg_ok (s\<lparr>dicts := x6\<rparr>) = reg_ok s"
  "reg_ok (s\<lparr>heartbeat_task := x7\<rparr>) = reg_ok s"
  "reg_ok (s\<lparr>closed := x8\<rparr>) = reg_ok s"
  by (simp_all add: reg_ok_def entry_ok_def)

lemma calls_ok_fields [simp]:
  "calls_ok (s\<lparr>stdout := x2\<rparr>) = calls_ok s"
  "calls_ok (s\<lparr>reader := x3\<rparr>) = calls_ok s"
  "calls_ok (s\<lparr>writer := x4\<rparr>) = calls_ok s"
  "calls_ok (s\<lparr>receive_task := x5\<rparr>) = calls_ok s"
  "calls_ok (s\<lparr>dicts := x6\<rparr>) = calls_ok s"
  "calls_ok (s\<lparr>heartbeat_task := x7\<rparr>) = calls_ok s"
  "calls_ok (s\<lparr>closed := x8\<rparr>) = calls_ok s"
  "calls_ok (s\<lparr>msg_id_counter := x9\<rparr>) = calls_ok s"
  by (simp_all add: calls_ok_def)

lemma inv_mid_fields [simp]:
  "inv_mid (s\<lparr>stdout := x2\<rparr>) = inv_mid s"
  "inv_mid (s\<lparr>reader := x3\<rparr>) = inv_mid s"
  "inv_mid (s\<lparr>writer := x4\<rparr>) = inv_mid s"
  "inv_mid (s\<lparr>receive_task := x5\<rparr>) = inv_mid s"
  "inv_mid (s\<lparr>dicts := x6\<rparr>) = inv_mid s"
  by (simp_all add: inv_mid_def)

lemma inv_mid_fail_pending:
  "inv_mid s \<Longrightarrow> lost e \<Longrightarrow> inv_mid (fail_pending e s)"
proof -
  assume a: "inv_mid s" and ex: "lost e"
  let ?s' = "fail_pending e s"
  have r: "reg_ok s" and co: "calls_ok s" and h: "hb_mid s" using a by (simp_all add: inv_mid_def)
  have nth: "futs ?s' ! f = futs s ! f \<or> (futs s ! f = Pending \<and> futs ?s' ! f = Exception e)"
    if "f < length (futs s)" for f
    using fail_pending_nth [OF that, of e] by (auto simp: is_done_def)
  have e1: "entry_ok ?s' k f" if "(k, f) \<in> set (response_futures s)" for k f
  proof -
    have eo: "entry_ok s k f" using r that by (simp add: reg_ok_def)
    then have "f < length (futs s)" by (simp add: entry_ok_def)
    then show ?thesis using eo nth [of f] by (auto simp: entry_ok_def)
  qed
  have x: "lost e'" if "f < length (futs s)" "futs ?s' ! f = Exception e'" for f e'
    using nth [OF that(1)] that r ex by (auto simp: reg_ok_def)
  have r': "reg_ok ?s'"
    unfolding reg_ok_def using r e1 x by (simp add: reg_ok_def) blast
  have w: "(str_int m, f) \<in> set (response_futures s) \<and> futs ?s' ! f \<noteq> Cancelled"
    if "i < length (calls s)" "waiting_on (calls s ! i) = Some (m, f)" for i m f
  proof -
    have "f < length (futs s)" using waiting_id_issued [OF r co that] by simp
    then show ?thesis using nth [of f] co that by (auto simp: calls_ok_def)
  qed
  have c': "calls_ok ?s'"
    unfolding calls_ok_def using w co by (simp add: calls_ok_def) blast
  have h': "hb_mid ?s'" using h hb_mid_eqI [of ?s' s] by simp
  show ?thesis using r' c' h' by (simp add: inv_mid_def)
qed

lemma inv_mid_handle_message:
  "inv_mid s \<Longrightarrow> handle_message msg s = Inr s' \<Longrightarrow> inv_mid s'"
proof -
  assume a: "inv_mid s" and hm: "handle_message msg s = Inr s'"
  have r: "reg_ok s" and co: "calls_ok s" and h: "hb_mid s" using a by (simp_all add: inv_mid_def)
  have note_ok: "inv_mid (s\<lparr>stdout := x\<rparr>)" for x
    using a by simp
  from hm obtain d where d: "msg = JDict d" by (cases msg) (simp_all add: handle_message_def)
  show ?thesis
  proof (cases "\<exists>x. s' = s\<lparr>stdout := x\<rparr>")
    case True
    then show ?thesis using note_ok by blast
  next
    case False
    then obtain f where nn: "dict_get d ''reply_to'' \<noteq> JNull"
      and look: "map_of (response_futures s) (py_str (dict_get d ''reply_to'')) = Some f"
      and pend: "futs s ! f = Pending"
      and s': "s' = s\<lparr>futs := (futs s)[f := Result msg]\<rparr>"
      using hm d by (auto simp: handle_message_def Let_def is_done_def split: option.splits if_splits)
    let ?k = "py_str (dict_get d ''reply_to'')"
    have kf: "(?k, f) \<in> set (response_futures s)" using look by (rule map_of_SomeD)
    have d2: "distinct (map snd (response_futures s))" using r by (simp add: reg_ok_def)
    have e1: "entry_ok s' k f'" if "(k, f') \<in> set (response_futures s)" for k f'
    proof -
      have eo: "entry_ok s k f'" using r that by (simp add: reg_ok_def)
      show ?thesis
      proof (cases "f' = f")
        case True
        then have "k = ?k" using distinct_snd_unique [OF d2 _ kf] that by blast
        then show ?thesis using eo True nn d by (simp add: entry_ok_def s' reply_ok_def)
      next
        case False
        then show ?thesis using eo by (simp add: entry_ok_def s')
      qed
    qed
    have x: "lost e" if "f' < length (futs s)" "(futs s)[f := Result msg] ! f' = Exception e" for f' e
      using that r by (cases "f' = f") (auto simp: reg_ok_def)
    have r': "reg_ok s'"
      unfolding reg_ok_def using r e1 x by (simp add: reg_ok_def s') blast
    have w: "(str_int m, f') \<in> set (response_futures s) \<and> (futs s)[f := Result msg] ! f' \<noteq> Cancelled"
      if "i < length (calls s)" "waiting_on (calls s ! i) = Some (m, f')" for i m f'
    proof -
      have "f' < length (futs s)" using waiting_id_issued [OF r co that] by simp
      then show ?thesis using co that by (cases "f' = f") (auto simp: calls_ok_def)
    qed
    have c': "calls_ok s'"
      unfolding calls_ok_def using w co by (simp add: calls_ok_def s') blast
    show ?thesis using r' c' h by (simp add: inv_mid_def s')
  qed
qed

subsection \<open>The heartbeat loop resumes, and the other steps\<close>

definition hb_live :: "client \<Rightarrow> bool" where
  "hb_live s \<longleftrightarrow>
     (\<forall>cid c. heartbeat_task s = Some (Alive (Requesting cid) c) \<longrightarrow> \<not> finished (calls s ! cid))"

lemma inv_iff: "inv s \<longleftrightarrow> inv_mid s \<and> hb_live s"
  by (auto simp: inv_def inv_mid_def hb_ok_def hb_live_def)

lemma hb_live_fields [simp]:
  "hb_live (s\<lparr>futs := x1\<rparr>) = hb_live s"
  "hb_live (s\<lparr>stdout := x2\<rparr>) = hb_live s"
  "hb_live (s\<lparr>reader := x3\<rparr>) = hb_live s"
  "hb_live (s\<lparr>writer := x4\<rparr>) = hb_live s"
  "hb_live (s\<lparr>receive_task := x5\<rparr>) = hb_live s"
  "hb_live (s\<lparr>dicts := x6\<rparr>) = hb_live s"
  "hb_live (s\<lparr>response_futures := x7\<rparr>) = hb_live s"
  "hb_live (s\<lparr>msg_id_counter := x8\<rparr>) = hb_live s"
  "hb_live (s\<lparr>closed := x9\<rparr>) = hb_live s"
  by (simp_all add: hb_live_def)

lemma hb_live_eqI:
  "heartbeat_task s' = heartbeat_task s \<Longrightarrow> calls s' = calls s \<Longrightarrow> hb_live s' = hb_live s"
  by (simp add: hb_live_def)

lemma hb_requesting_bound:
  "hb_mid s \<Longrightarrow> heartbeat_task s = Some (Alive (Requesting cid) c) \<Longrightarrow> cid < length (calls s)"
  by (simp add: hb_mid_def)

lemma hb_live_append: "hb_mid s \<Longrightarrow> hb_live s \<Longrightarrow> hb_live (s\<lparr>calls := calls s @ [c]\<rparr>)"
  using hb_requesting_bound [of s] by (auto simp: hb_live_def nth_append)

lemma inv_heartbeat_continue: "inv_mid s \<Longrightarrow> inv (heartbeat_continue s)"
proof -
  assume a: "inv_mid s"
  obtain t where t: "heartbeat_continue s = s\<lparr>heartbeat_task := t\<rparr>"
    using heartbeat_continue_frame [of s] by blast
  have r: "reg_ok (heartbeat_continue s)" and c: "calls_ok (heartbeat_continue s)"
    using a by (simp_all add: t inv_mid_def)
  have h: "hb_mid s" using a by (simp add: inv_mid_def)
  have "hb_ok (heartbeat_continue s)"
    using h
    by (auto simp: hb_ok_def hb_mid_def heartbeat_continue_def heartbeat_loop_head_def set_heartbeat_def
        finished_def is_Exception_def
        split: option.splits task.splits hb_point.splits call.splits if_splits)
  then show ?thesis using r c by (simp add: inv_def)
qed

lemma inv_fail_pending: "inv s \<Longrightarrow> lost e \<Longrightarrow> inv (fail_pending e s)"
  using inv_mid_fail_pending [of s e] hb_live_eqI [of "fail_pending e s" s]
  by (simp add: inv_iff)

lemma inv_close_resume: "inv s \<Longrightarrow> inv (close_resume s)"
  by (simp add: close_resume_def inv_fail_pending lost_def)

lemma inv_close: "inv s \<Longrightarrow> inv (close s)"
proof -
  assume a: "inv s"
  let ?s3 = "s\<lparr>closed := True, heartbeat_task := cancel (heartbeat_task s),
               receive_task := cancel (receive_task s)\<rparr>"
  have h: "hb_ok ?s3"
    using a by (auto simp: inv_def hb_ok_def hb_mid_def cancel_def split: option.splits task.splits hb_point.splits)
  have i3: "inv ?s3" using a h by (simp add: inv_def)
  have w: "inv (?s3\<lparr>writer := x\<rparr>)" for x using i3 by (simp add: inv_iff)
  show ?thesis
    using inv_close_resume [OF i3] w by (cases "writer s") (simp_all add: close_def Let_def)
qed

lemma inv_reader_loop_finally: "inv s \<Longrightarrow> inv (reader_loop_finally s)"
  using inv_fail_pending [of s "ConnectionError ''Connection lost''"]
  by (simp add: reader_loop_finally_def inv_iff lost_def)

lemma inv_handle_message: "inv s \<Longrightarrow> handle_message msg s = Inr s' \<Longrightarrow> inv s'"
proof -
  assume a: "inv s" and hm: "handle_message msg s = Inr s'"
  have "heartbeat_task s' = heartbeat_task s \<and> calls s' = calls s"
    using hm by (auto simp: handle_message_def Let_def split: json.splits option.splits if_splits)
  then show ?thesis
    using a inv_mid_handle_message [OF _ hm] hb_live_eqI [of s' s] by (simp add: inv_iff)
qed

lemma inv_reader_loop: "inv s \<Longrightarrow> inv (reader_loop s)"
proof -
  assume a: "inv s"
  have rd: "inv (s\<lparr>reader := x\<rparr>)" for x using a by (simp add: inv_iff)
  have rt: "inv (s\<lparr>receive_task := x\<rparr>)" for x using a by (simp add: inv_iff)
  show ?thesis
    using a rt inv_reader_loop_finally [OF a] inv_reader_loop_finally [OF rd] inv_handle_message [OF rd]
    by (auto simp: reader_loop_def split: option.splits prod.splits outcome.splits sum.splits)
qed

lemma inv_reader_task_step: "inv s \<Longrightarrow> inv (reader_task_step s)"
  by (auto simp: reader_task_step_def inv_reader_loop inv_reader_loop_finally
      split: option.splits task.splits)

lemma inv_mid_heartbeat_task:
  "inv_mid s \<Longrightarrow> hb_mid (s\<lparr>heartbeat_task := t\<rparr>) \<Longrightarrow> inv_mid (s\<lparr>heartbeat_task := t\<rparr>)"
  by (simp add: inv_mid_def)

lemma inv_heartbeat_loop_head: "inv_mid s \<Longrightarrow> inv (heartbeat_loop_head s)"
proof -
  assume a: "inv_mid s"
  obtain t where t: "heartbeat_loop_head s = s\<lparr>heartbeat_task := t\<rparr>"
    using heartbeat_loop_head_frame [of s] by blast
  have r: "reg_ok (heartbeat_loop_head s)" and c: "calls_ok (heartbeat_loop_head s)"
    using a by (simp_all add: t inv_mid_def)
  have h: "hb_mid s" using a by (simp add: inv_mid_def)
  have "hb_ok (heartbeat_loop_head s)"
    using h
    by (auto simp: hb_ok_def hb_mid_def heartbeat_loop_head_def set_heartbeat_def
        split: option.splits task.splits hb_point.splits if_splits)
  then show ?thesis using r c by (simp add: inv_def)
qed

lemma send_request_keeps [simp]:
  "heartbeat_task (snd (send_request p s)) = heartbeat_task s"
  "closed (snd (send_request p s)) = closed s"
  "calls (snd (send_request p s)) = calls s"
  using send_request_cases [of p s] by (auto simp: send_request_send_fields)

lemma inv_mid_set_requesting:
  "inv_mid s \<Longrightarrow> cid < length (calls s) \<Longrightarrow> calls s ! cid \<noteq> Raise CancelledError \<Longrightarrow>
   inv_mid (set_heartbeat (Requesting cid) s)"
  by (auto simp: inv_mid_def set_heartbeat_def hb_mid_def split: option.splits task.splits)

lemma inv_heartbeat_request: "inv_mid s \<Longrightarrow> inv (heartbeat_request s)"
proof -
  assume a: "inv_mid s"
  let ?s1 = "s\<lparr>dicts := dicts s @ [[(''type'', JStr ''heartbeat'')]]\<rparr>"
  let ?p = "length (dicts s)"
  let ?c = "fst (send_request ?p ?s1)" and ?s2 = "snd (send_request ?p ?s1)"
  let ?s3 = "?s2\<lparr>calls := calls ?s2 @ [?c]\<rparr>"
  have a1: "inv_mid ?s1" using a by simp
  have a3: "inv_mid ?s3" by (rule inv_mid_send_request [OF a1])
  have nc: "calls ?s3 ! length (calls ?s2) \<noteq> Raise CancelledError"
    using send_request_not_cancelled [of ?p ?s1] by simp
  have "inv_mid (set_heartbeat (Requesting (length (calls ?s2))) ?s3)"
    by (rule inv_mid_set_requesting [OF a3 _ nc]) simp
  then have "inv (heartbeat_continue (set_heartbeat (Requesting (length (calls ?s2))) ?s3))"
    by (rule inv_heartbeat_continue)
  then show ?thesis by (simp add: heartbeat_request_def Let_def split_beta)
qed

lemma inv_heartbeat_loop: "inv s \<Longrightarrow> inv (heartbeat_loop s)"
proof (cases "heartbeat_task s")
  case None
  assume "inv s"
  then show ?thesis using None by (simp add: heartbeat_loop_def)
next
  case (Some t)
  assume a: "inv s"
  then have m: "inv_mid s" by (rule inv_imp_mid)
  show ?thesis
  proof (cases t)
    case Done
    then show ?thesis using a Some by (simp add: heartbeat_loop_def)
  next
    case (Alive pt c)
    have h: "hb_mid s" using m by (simp add: inv_mid_def)
    show ?thesis
    proof (cases c)
      case True
      then have cl: "closed s" using h Some Alive by (simp add: hb_mid_def)
      have dn: "inv (s\<lparr>heartbeat_task := Some Done\<rparr>)"
        using m cl by (simp add: inv_iff inv_mid_def hb_mid_def hb_live_def)
      show ?thesis
      proof (cases pt)
        case (Requesting cid)
        let ?s0 = "s\<lparr>heartbeat_task := Some (Alive pt False)\<rparr>"
        have "hb_mid ?s0" using h Some Alive Requesting by (simp add: hb_mid_def)
        then have m0: "inv_mid ?s0" using m by (simp add: inv_mid_def)
        have "inv (heartbeat_continue (send_request_cancelled cid ?s0))"
          using inv_mid_send_request_cancelled [OF m0, of cid] cl
          by (intro inv_heartbeat_continue) simp
        then show ?thesis using Some Alive True Requesting by (simp add: heartbeat_loop_def)
      qed (use Some Alive True dn in \<open>simp_all add: heartbeat_loop_def\<close>)
    next
      case False
      then show ?thesis
        using Some Alive a inv_heartbeat_loop_head [OF m] inv_heartbeat_request [OF m]
        by (cases pt) (simp_all add: heartbeat_loop_def)
    qed
  qed
qed

lemma inv_step: "inv s \<Longrightarrow> inv (step e s)"
proof -
  assume a: "inv s"
  then have m: "inv_mid s" by (rule inv_imp_mid)
  have l: "hb_live s" using a by (simp add: inv_iff)
  have h: "hb_mid s" using m by (simp add: inv_mid_def)
  show ?thesis
  proof (cases e)
    case (NewDict d)
    then show ?thesis using a by (simp add: inv_iff)
  next
    case Connect
    have "inv_mid (s\<lparr>calls := calls s @ [c]\<rparr>)" if "waiting_on c = None" for c
      using m calls_ok_put(2) [of s c] hb_mid_append_call [of s c] that by (simp add: inv_mid_def)
    then show ?thesis using Connect hb_live_append [OF h l] by (simp add: connect_def inv_iff)
  next
    case (Opened cid r)
    show ?thesis
    proof (cases "r = Some CancelledError")
      case True
      then show ?thesis using a Opened by simp
    next
      case False
      then show ?thesis
        using Opened inv_heartbeat_continue [OF inv_mid_send_request_opened [OF inv_mid_connect_resume [OF m False] False]]
        by simp
    qed
  next
    case (Send p)
    let ?c = "fst (send_request p s)" and ?s' = "snd (send_request p s)"
    have m': "inv_mid (?s'\<lparr>calls := calls ?s' @ [?c]\<rparr>)" by (rule inv_mid_send_request [OF m])
    have "hb_live (?s'\<lparr>calls := calls s @ [?c]\<rparr>)"
      using hb_live_append [OF h l, of ?c] hb_live_eqI [of "?s'\<lparr>calls := calls s @ [?c]\<rparr>" "s\<lparr>calls := calls s @ [?c]\<rparr>"]
      by simp
    then show ?thesis using Send a m' by (simp add: inv_iff split_beta)
  next
    case (Drained cid r)
    show ?thesis
    proof (cases "r = Some CancelledError")
      case True
      then show ?thesis using a Drained by simp
    next
      case False
      then show ?thesis
        using Drained inv_heartbeat_continue [OF inv_mid_send_request_drained [OF m False]] by simp
    qed
  next
    case (Wake cid)
    then show ?thesis using inv_heartbeat_continue [OF inv_mid_send_request_resume [OF m]] by simp
  next
    case (Timeout cid)
    then show ?thesis using inv_heartbeat_continue [OF inv_mid_send_request_resume [OF m]] by simp
  next
    case Close
    then show ?thesis using inv_close [OF a] by simp
  next
    case CloseResume
    then show ?thesis using inv_close_resume [OF a] by simp
  next
    case ReaderStep
    then show ?thesis using inv_reader_task_step [OF a] by simp
  next
    case HeartbeatStep
    then show ?thesis using inv_heartbeat_loop [OF a] by simp
  next
    case (Feed data)
    then show ?thesis using a by (auto simp: feed_def inv_iff split: option.splits)
  next
    case FeedEof
    then show ?thesis using a by (auto simp: feed_def inv_iff split: option.splits)
  next
    case (ConnectionLost x)
    then show ?thesis using a by (auto simp: feed_def inv_iff split: option.splits)
  qed
qed

lemma inv_run: "inv s \<Longrightarrow> inv (run es s)"
proof (induction es arbitrary: s)
  case Nil
  then show ?case by (simp add: run_def)
next
  case (Cons e es)
  have "run (e # es) s = run es (step e s)" by (simp add: run_def)
  then show ?case using Cons.IH [OF inv_step [OF Cons.prems]] by simp
qed

lemma inv_reachable: "inv (run es init)"
  by (rule inv_run [OF inv_init])

section \<open>How a call that waits for its reply moves\<close>

lemma await_future_kept:
  assumes "cid < length (calls s)" and "calls s ! cid = AwaitFuture m f"
  shows "calls (connect_resume cid' r s) ! cid = AwaitFuture m f"
    and "calls (send_request_opened cid' r s) ! cid = AwaitFuture m f"
    and "calls (send_request_drained cid' r s) ! cid = AwaitFuture m f"
proof -
  show "calls (connect_resume cid' r s) ! cid = AwaitFuture m f"
    using assms by (cases "cid' = cid") (auto simp: connect_resume_def split: call.splits option.splits)
  have k: "calls x2a = calls s" if "send_request_send p (connect_opened s) = (x1, x2a)" for p x1 x2a
    using calls_send_request_send [of p "connect_opened s"] that by simp
  show "calls (send_request_opened cid' r s) ! cid = AwaitFuture m f"
    using assms k
    by (cases "cid' = cid") (auto simp: send_request_opened_def split: call.splits option.splits prod.splits)
  show "calls (send_request_drained cid' r s) ! cid = AwaitFuture m f"
    using assms by (cases "cid' = cid") (auto simp: send_request_drained_def split: call.splits option.splits)
qed

lemma await_future_resume_other:
  "cid < length (calls s) \<Longrightarrow> cid' \<noteq> cid \<Longrightarrow>
   calls (send_request_resume timer cid' s) ! cid = calls s ! cid"
  by (auto simp: send_request_resume_def wait_for_def split: call.splits future.splits)

lemma await_future_cancelled_other:
  "cid < length (calls s) \<Longrightarrow> cid' \<noteq> cid \<Longrightarrow>
   calls (send_request_cancelled cid' s) ! cid = calls s ! cid"
  by (auto simp: send_request_cancelled_def Let_def split: call.splits future.splits)

lemma await_future_resume:
  assumes "cid < length (calls s)" and "calls s ! cid = AwaitFuture m f" and "f < length (futs s)"
  shows "send_request_resume timer cid s =
           (case futs s ! f of
              Result v \<Rightarrow> s\<lparr>response_futures := AList.delete (str_int m) (response_futures s),
                            calls := (calls s)[cid := Return v]\<rparr>
            | Exception e \<Rightarrow> s\<lparr>response_futures := AList.delete (str_int m) (response_futures s),
                               calls := (calls s)[cid := Raise e]\<rparr>
            | Cancelled \<Rightarrow> s\<lparr>response_futures := AList.delete (str_int m) (response_futures s),
                             calls := (calls s)[cid := Raise CancelledError]\<rparr>
            | Pending \<Rightarrow>
                if timer
                then s\<lparr>futs := (futs s)[f := Cancelled],
                       response_futures := AList.delete (str_int m) (response_futures s),
                       calls := (calls s)[cid := Raise TimeoutError]\<rparr>
                else s)"
  using assms by (simp add: send_request_resume_def wait_for_def split: future.splits)

lemma await_future_cancelled:
  assumes "cid < length (calls s)" and "calls s ! cid = AwaitFuture m f"
  shows "send_request_cancelled cid s =
           (case futs s ! f of
              Result v \<Rightarrow> s\<lparr>response_futures := AList.delete (str_int m) (response_futures s),
                            calls := (calls s)[cid := Return v]\<rparr>
            | Exception e \<Rightarrow> s\<lparr>response_futures := AList.delete (str_int m) (response_futures s),
                               calls := (calls s)[cid := Raise e]\<rparr>
            | Cancelled \<Rightarrow> s\<lparr>response_futures := AList.delete (str_int m) (response_futures s),
                             calls := (calls s)[cid := Raise CancelledError]\<rparr>
            | Pending \<Rightarrow>
                s\<lparr>response_futures := AList.delete (str_int m) (response_futures s),
                  futs := (futs s)[f := Cancelled],
                  calls := (calls s)[cid := Raise CancelledError]\<rparr>)"
  using assms by (simp add: send_request_cancelled_def Let_def split: future.splits)

lemma calls_unchanged [simp]:
  "calls (close_resume s) = calls s"
  "calls (close s) = calls s"
  "calls (reader_loop_finally s) = calls s"
  "calls (feed g s) = calls s"
  "calls (set_heartbeat pt s) = calls s"
  "calls (heartbeat_loop_head s) = calls s"
  by (auto simp: close_resume_def close_def Let_def reader_loop_finally_def feed_def
      set_heartbeat_def heartbeat_loop_head_def split: option.splits task.splits)

lemma calls_handle_message: "handle_message msg s = Inr s' \<Longrightarrow> calls s' = calls s"
  by (auto simp: handle_message_def Let_def split: json.splits option.splits if_splits)

lemma calls_reader_loop [simp]: "calls (reader_loop s) = calls s"
  by (auto simp: reader_loop_def dest: calls_handle_message
      split: option.splits prod.splits outcome.splits sum.splits)

lemma calls_reader_task_step [simp]: "calls (reader_task_step s) = calls s"
  by (auto simp: reader_task_step_def split: option.splits task.splits)

lemma calls_heartbeat_request:
  "calls (heartbeat_request s) =
     calls s @ [fst (send_request (length (dicts s)) (s\<lparr>dicts := dicts s @ [[(''type'', JStr ''heartbeat'')]]\<rparr>))]"
  by (simp add: heartbeat_request_def Let_def split_beta)

lemma length_calls_resume [simp]:
  "length (calls (connect_resume cid r s)) = length (calls s)"
  "length (calls (send_request_opened cid r s)) = length (calls s)"
  "length (calls (send_request_drained cid r s)) = length (calls s)"
proof -
  show "length (calls (connect_resume cid r s)) = length (calls s)"
    by (auto simp: connect_resume_def split: call.splits option.splits)
  have k: "calls x2a = calls s" if "send_request_send p (connect_opened s) = (x1, x2a)" for p x1 x2a
    using calls_send_request_send [of p "connect_opened s"] that by simp
  show "length (calls (send_request_opened cid r s)) = length (calls s)"
    using k by (auto simp: send_request_opened_def split: call.splits option.splits prod.splits)
  show "length (calls (send_request_drained cid r s)) = length (calls s)"
    by (auto simp: send_request_drained_def split: call.splits option.splits)
qed

lemma await_future_step:
  assumes "inv s" and "cid < length (calls s)" and "calls s ! cid = AwaitFuture m f"
  shows "calls (step e s) ! cid = AwaitFuture m f \<or>
         (\<exists>v. futs s ! f = Result v \<and> calls (step e s) ! cid = Return v) \<or>
         (\<exists>x. futs s ! f = Exception x \<and> lost x \<and> calls (step e s) ! cid = Raise x) \<or>
         (futs s ! f = Pending \<and> e = Timeout cid \<and> calls (step e s) ! cid = Raise TimeoutError
            \<and> futs (step e s) ! f = Cancelled) \<or>
         (futs s ! f = Pending \<and> e = HeartbeatStep \<and> closed s
            \<and> calls (step e s) ! cid = Raise CancelledError \<and> futs (step e s) ! f = Cancelled)"
proof -
  have m: "inv_mid s" using assms(1) by (rule inv_imp_mid)
  have r: "reg_ok s" and co: "calls_ok s" and h: "hb_mid s" using m by (simp_all add: inv_mid_def)
  have w: "waiting_on (calls s ! cid) = Some (m, f)" using assms(3) by simp
  have fl: "f < length (futs s)" using waiting_id_issued [OF r co assms(2) w] by simp
  have nc: "futs s ! f \<noteq> Cancelled" using waiting_future_state(1) [OF m assms(2) w] .
  have lo: "lost x" if "futs s ! f = Exception x" for x
    using r fl that by (auto simp: reg_ok_def)
  have res: "calls (send_request_resume timer cid s) ! cid = AwaitFuture m f \<or>
         (\<exists>v. futs s ! f = Result v \<and> calls (send_request_resume timer cid s) ! cid = Return v) \<or>
         (\<exists>x. futs s ! f = Exception x \<and> lost x \<and> calls (send_request_resume timer cid s) ! cid = Raise x) \<or>
         (futs s ! f = Pending \<and> timer \<and> calls (send_request_resume timer cid s) ! cid = Raise TimeoutError
            \<and> futs (send_request_resume timer cid s) ! f = Cancelled)" for timer
    using assms(2,3) fl nc lo
    by (cases "futs s ! f") (simp_all add: await_future_resume [OF assms(2,3) fl])
  show ?thesis
  proof (cases e)
    case (NewDict d)
    then show ?thesis using assms by simp
  next
    case Connect
    then show ?thesis using assms by (simp add: connect_def nth_append)
  next
    case (Opened cid' r')
    have "calls (send_request_opened cid' r' (connect_resume cid' r' s)) ! cid = AwaitFuture m f"
      using await_future_kept(2) [of cid "connect_resume cid' r' s" m f cid' r']
        await_future_kept(1) [OF assms(2,3), of cid' r'] assms(2) by simp
    then show ?thesis using Opened assms by simp
  next
    case (Send p)
    then show ?thesis using assms by (simp add: split_beta nth_append)
  next
    case (Drained cid' r')
    then show ?thesis using assms await_future_kept(3) [OF assms(2,3), of cid' r'] by simp
  next
    case (Wake cid')
    show ?thesis
    proof (cases "cid' = cid")
      case True
      then show ?thesis using Wake res [of False] by auto
    next
      case False
      then show ?thesis using Wake assms await_future_resume_other [OF assms(2) False] by simp
    qed
  next
    case (Timeout cid')
    show ?thesis
    proof (cases "cid' = cid")
      case True
      then show ?thesis using Timeout res [of True] by auto
    next
      case False
      then show ?thesis using Timeout assms await_future_resume_other [OF assms(2) False] by simp
    qed
  next
    case Close
    then show ?thesis using assms by simp
  next
    case CloseResume
    then show ?thesis using assms by simp
  next
    case ReaderStep
    then show ?thesis using assms by simp
  next
    case HeartbeatStep
    show ?thesis
    proof (cases "\<exists>pt. heartbeat_task s = Some (Alive (Requesting cid) True)")
      case True
      then have ht: "heartbeat_task s = Some (Alive (Requesting cid) True)" by simp
      then have cl: "closed s" using h by (simp add: hb_mid_def)
      let ?s0 = "s\<lparr>heartbeat_task := Some (Alive (Requesting cid) False)\<rparr>"
      have st: "heartbeat_loop s = heartbeat_continue (send_request_cancelled cid ?s0)"
        using ht by (simp add: heartbeat_loop_def)
      have a2: "cid < length (calls ?s0)" "calls ?s0 ! cid = AwaitFuture m f" using assms by simp_all
      show ?thesis
        using assms(2) fl nc lo cl HeartbeatStep
        by (cases "futs s ! f") (simp_all add: st await_future_cancelled [OF a2])
    next
      case False
      have keep: "calls (heartbeat_continue (send_request_cancelled cid' (s\<lparr>heartbeat_task := t\<rparr>))) ! cid
                  = AwaitFuture m f" if "cid' \<noteq> cid" for cid' t
        using await_future_cancelled_other [of cid "s\<lparr>heartbeat_task := t\<rparr>" cid'] that assms by simp
      have "calls (heartbeat_loop s) ! cid = AwaitFuture m f"
        using False assms keep
        by (auto simp: heartbeat_loop_def calls_heartbeat_request nth_append
            split: option.splits task.splits hb_point.splits)
      then show ?thesis using HeartbeatStep by simp
    qed
  next
    case (Feed data)
    then show ?thesis using assms by simp
  next
    case FeedEof
    then show ?thesis using assms by simp
  next
    case (ConnectionLost x)
    then show ?thesis using assms by simp
  qed
qed

text \<open>The reply to the waiting request of \<open>one_waiting\<close>, with its id written as a string.\<close>

definition string_reply_frame :: bytes where
  \<open>string_reply_frame = [CHR 0x00, CHR 0x00, CHR 0x00, CHR 0x10] @ ''{"reply_to":"1"}''\<close>

lemma reply_ok_iff:
  "reply_ok k msg \<longleftrightarrow>
     (\<exists>d. msg = JDict d \<and> dict_get d ''reply_to'' \<noteq> JNull \<and> py_str (dict_get d ''reply_to'') = k)"
  by (cases msg) (simp_all add: reply_ok_def)

lemma waiting_entry:
  "calls_ok s \<Longrightarrow> cid < length (calls s) \<Longrightarrow> waiting_on (calls s ! cid) = Some (m, f) \<Longrightarrow>
   (str_int m, f) \<in> set (response_futures s)"
  unfolding calls_ok_def by blast

lemma replied_fields:
  "calls (run [Feed reply_frame, ReaderStep] one_waiting) = [AwaitFuture 1 0]"
  "calls (step (Wake 0) (run [Feed reply_frame, ReaderStep] one_waiting)) = [Return (JDict [(''reply_to'', JInt 1)])]"
  by code_simp+

section \<open>How a call that has not yet reached its wait moves\<close>

lemma heartbeat_loop_calls:
  assumes "cid < length (calls s)"
  shows "calls (heartbeat_loop s) ! cid = calls s ! cid \<or>
         heartbeat_loop s = heartbeat_continue
           (send_request_cancelled cid (s\<lparr>heartbeat_task := Some (Alive (Requesting cid) False)\<rparr>))"
proof (cases "heartbeat_task s = Some (Alive (Requesting cid) True)")
  case True
  then show ?thesis by (simp add: heartbeat_loop_def)
next
  case False
  have keep: "calls (heartbeat_continue (send_request_cancelled cid' (s\<lparr>heartbeat_task := t\<rparr>))) ! cid
              = calls s ! cid" if "cid' \<noteq> cid" for cid' t
    using await_future_cancelled_other [of cid "s\<lparr>heartbeat_task := t\<rparr>" cid'] that assms by simp
  have "calls (heartbeat_loop s) ! cid = calls s ! cid"
    using False assms keep
    by (auto simp: heartbeat_loop_def calls_heartbeat_request nth_append
        split: option.splits task.splits hb_point.splits)
  then show ?thesis by simp
qed

lemma resume_only_waiting:
  "cid < length (calls s) \<Longrightarrow> (\<forall>m f. calls s ! cid \<noteq> AwaitFuture m f) \<Longrightarrow>
   calls (send_request_resume timer cid' s) ! cid = calls s ! cid"
  by (cases "cid' = cid")
     (auto simp: send_request_resume_def wait_for_def split: call.splits future.splits)

lemma drained_only_drain:
  "cid < length (calls s) \<Longrightarrow> (\<forall>m f. calls s ! cid \<noteq> AwaitDrain m f) \<or> cid' \<noteq> cid \<Longrightarrow>
   calls (send_request_drained cid' r s) ! cid = calls s ! cid"
  by (cases "cid' = cid") (auto simp: send_request_drained_def split: call.splits option.splits)

lemma connect_resume_only_open:
  "cid < length (calls s) \<Longrightarrow> calls s ! cid \<noteq> AwaitOpen \<or> cid' \<noteq> cid \<Longrightarrow>
   calls (connect_resume cid' r s) ! cid = calls s ! cid"
  by (cases "cid' = cid") (auto simp: connect_resume_def split: call.splits option.splits)

lemma opened_only_connect:
  "cid < length (calls s) \<Longrightarrow> (\<forall>p. calls s ! cid \<noteq> AwaitConnect p) \<or> cid' \<noteq> cid \<Longrightarrow>
   calls (send_request_opened cid' r s) ! cid = calls s ! cid"
proof -
  assume a: "cid < length (calls s)" "(\<forall>p. calls s ! cid \<noteq> AwaitConnect p) \<or> cid' \<noteq> cid"
  have k: "calls x2a = calls s" if "send_request_send p (connect_opened s) = (x1, x2a)" for p x1 x2a
    using calls_send_request_send [of p "connect_opened s"] that by simp
  show ?thesis
    using a k
    by (cases "cid' = cid") (auto simp: send_request_opened_def split: call.splits option.splits prod.splits)
qed

lemma await_drain_step:
  assumes "cid < length (calls s)" and "calls s ! cid = AwaitDrain m f"
  shows "calls (step e s) ! cid = AwaitDrain m f \<or>
         (e = Drained cid None \<and> calls (step e s) ! cid = AwaitFuture m f) \<or>
         (\<exists>x. e = Drained cid (Some x) \<and> calls (step e s) ! cid = Raise x) \<or>
         (e = HeartbeatStep \<and> calls (step e s) ! cid = Raise CancelledError)"
proof (cases e)
  case (NewDict d)
  then show ?thesis using assms by simp
next
  case Connect
  then show ?thesis using assms by (simp add: connect_def nth_append)
next
  case (Opened cid' r')
  have "calls (send_request_opened cid' r' (connect_resume cid' r' s)) ! cid = AwaitDrain m f"
    using opened_only_connect [of cid "connect_resume cid' r' s" cid' r']
      connect_resume_only_open [of cid s cid' r'] assms by simp
  then show ?thesis using Opened assms by simp
next
  case (Send p)
  then show ?thesis using assms by (simp add: split_beta nth_append)
next
  case (Drained cid' r')
  show ?thesis
  proof (cases "cid' = cid \<and> r' \<noteq> Some CancelledError")
    case True
    then show ?thesis using Drained assms
      by (cases r') (simp_all add: send_request_drained_def)
  next
    case False
    then show ?thesis using Drained assms drained_only_drain [of cid s cid' r'] by auto
  qed
next
  case (Wake cid')
  then show ?thesis using assms resume_only_waiting [of cid s False cid'] by simp
next
  case (Timeout cid')
  then show ?thesis using assms resume_only_waiting [of cid s True cid'] by simp
next
  case Close
  then show ?thesis using assms by simp
next
  case CloseResume
  then show ?thesis using assms by simp
next
  case ReaderStep
  then show ?thesis using assms by simp
next
  case HeartbeatStep
  have "calls (heartbeat_continue (send_request_cancelled cid (s\<lparr>heartbeat_task := t\<rparr>))) ! cid
        = Raise CancelledError" for t
    using assms by (simp add: send_request_cancelled_def)
  then show ?thesis using HeartbeatStep assms heartbeat_loop_calls [OF assms(1)] by auto
next
  case (Feed data)
  then show ?thesis using assms by simp
next
  case FeedEof
  then show ?thesis using assms by simp
next
  case (ConnectionLost x)
  then show ?thesis using assms by simp
qed

lemma await_connect_step:
  assumes "cid < length (calls s)" and "calls s ! cid = AwaitConnect p"
  shows "calls (step e s) ! cid = AwaitConnect p \<or>
         (\<exists>x. e = Opened cid (Some x) \<and> calls (step e s) ! cid = Raise x) \<or>
         (e = Opened cid None \<and>
            ((\<exists>m f. calls (step e s) ! cid = AwaitDrain m f) \<or>
             (\<exists>x. calls (step e s) ! cid = Raise x \<and> is_Exception x))) \<or>
         (e = HeartbeatStep \<and> calls (step e s) ! cid = Raise CancelledError)"
proof (cases e)
  case (NewDict d)
  then show ?thesis using assms by simp
next
  case Connect
  then show ?thesis using assms by (simp add: connect_def nth_append)
next
  case (Opened cid' r')
  have cr: "connect_resume cid r' s = s" using assms by (simp add: connect_resume_def)
  show ?thesis
  proof (cases "cid' = cid \<and> r' \<noteq> Some CancelledError")
    case True
    have k: "calls (snd (send_request_send p (connect_opened s))) = calls s" by simp
    have o: "calls (send_request_opened cid None s) ! cid = fst (send_request_send p (connect_opened s))"
      using assms k by (simp add: send_request_opened_def split_beta)
    show ?thesis
    proof (cases r')
      case None
      then show ?thesis
        using Opened True cr o send_request_send_call [of p "connect_opened s"] by auto
    next
      case (Some x)
      then show ?thesis using Opened True cr assms by (simp add: send_request_opened_def)
    qed
  next
    case False
    have "calls (send_request_opened cid' r' (connect_resume cid' r' s)) ! cid = AwaitConnect p"
      if "cid' \<noteq> cid"
      using opened_only_connect [of cid "connect_resume cid' r' s" cid' r']
        connect_resume_only_open [of cid s cid' r'] assms that by simp
    then show ?thesis using Opened False assms by auto
  qed
next
  case (Send p')
  then show ?thesis using assms by (simp add: split_beta nth_append)
next
  case (Drained cid' r')
  then show ?thesis using assms drained_only_drain [of cid s cid' r'] by simp
next
  case (Wake cid')
  then show ?thesis using assms resume_only_waiting [of cid s False cid'] by simp
next
  case (Timeout cid')
  then show ?thesis using assms resume_only_waiting [of cid s True cid'] by simp
next
  case Close
  then show ?thesis using assms by simp
next
  case CloseResume
  then show ?thesis using assms by simp
next
  case ReaderStep
  then show ?thesis using assms by simp
next
  case HeartbeatStep
  have "calls (heartbeat_continue (send_request_cancelled cid (s\<lparr>heartbeat_task := t\<rparr>))) ! cid
        = Raise CancelledError" for t
    using assms by (simp add: send_request_cancelled_def)
  then show ?thesis using HeartbeatStep assms heartbeat_loop_calls [OF assms(1)] by auto
next
  case (Feed data)
  then show ?thesis using assms by simp
next
  case FeedEof
  then show ?thesis using assms by simp
next
  case (ConnectionLost x)
  then show ?thesis using assms by simp
qed

lemma timeout_finishes:
  assumes "inv s" and "cid < length (calls s)" and "calls s ! cid = AwaitFuture m f"
  shows "finished (calls (step (Timeout cid) s) ! cid)"
proof -
  have mi: "inv_mid s" using assms(1) by (rule inv_imp_mid)
  have "waiting_on (calls s ! cid) = Some (m, f)" using assms(3) by simp
  then have fl: "f < length (futs s)"
    using waiting_id_issued [of s cid m f] mi assms(2) by (simp add: inv_mid_def)
  show ?thesis
    using assms(2)
    by (cases "futs s ! f") (simp_all add: await_future_resume [OF assms(2,3) fl] finished_def)
qed

lemma send_request_first_outcome:
  "fst (send_request p s) = Raise (ConnectionError ''Client is closed'') \<and> closed s \<or>
   fst (send_request p s) = AwaitConnect p \<and> \<not> closed s \<or>
   fst (send_request p s) = AwaitDrain (msg_id_counter s + 1) (length (futs s)) \<and> \<not> closed s \<or>
   (\<exists>x. fst (send_request p s) = Raise x \<and> is_Exception x \<and> \<not> closed s)"
  using send_request_send_call [of p s]
  by (auto simp: send_request_def connect_def)

lemma timed_out_fields:
  "futs (step (Timeout 0) one_waiting) = [Cancelled]"
  "calls (step (Timeout 0) one_waiting) = [Raise TimeoutError]"
  by code_simp+

section \<open>The claims\<close>

text \<open>
  C6. On a closed client \<^verbatim>\<open>send_request\<close> raises \<^verbatim>\<open>ConnectionError\<close> at once and leaves the
  whole state as it was: no message id is taken, no future is created or registered,
  nothing is written and no connection is attempted.
\<close>

theorem send_request_on_closed_client:
  "closed s \<Longrightarrow> send_request p s = (Raise (ConnectionError ''Client is closed''), s)"
  by (simp add: send_request_def)

theorem send_request_on_closed_client_witness:
  "closed (close init) \<and>
   send_request 0 (close init) = (Raise (ConnectionError ''Client is closed''), close init)"
proof -
  have c: "closed (close init)"
    by (simp add: close_def init_def Let_def close_resume_def fail_pending_def)
  show ?thesis
    using c send_request_on_closed_client [OF c, of 0] by simp
qed


text \<open>
  C10. \<^verbatim>\<open>send_request\<close> works on a copy: the dictionary the caller passed keeps its contents
  through the call and through everything that follows it, while the copy is what gets
  the \<^verbatim>\<open>type\<close> and \<^verbatim>\<open>msg_id\<close> keys.
\<close>

theorem payload_never_mutated:
  "p < length (dicts s) \<Longrightarrow>
   dicts (run (Send p # es) s) ! p = dicts s ! p \<and>
   dicts (snd (send_request_send p s)) ! length (dicts s) =
     AList.update ''msg_id'' (JInt (msg_id_counter s + 1))
       (setdefault ''type'' (JStr ''request'') (dicts s ! p))"
proof
  assume p: "p < length (dicts s)"
  show "dicts (run (Send p # es) s) ! p = dicts s ! p"
    using extends_run [of s "Send p # es"] p by (simp add: extends_def)
  show "dicts (snd (send_request_send p s)) ! length (dicts s) =
     AList.update ''msg_id'' (JInt (msg_id_counter s + 1))
       (setdefault ''type'' (JStr ''request'') (dicts s ! p))"
    by (simp add: send_request_send_def next_msg_id_def write_message_def Let_def
        split: sum.splits option.splits)
qed

theorem payload_never_mutated_witness:
  "0 < length (dicts (step (NewDict [(''type'', JStr ''echo'')]) init)) \<and>
   dicts (run [Send 0, Opened 0 None, Drained 0 None, Timeout 0] (step (NewDict [(''type'', JStr ''echo'')]) init)) ! 0
     = [(''type'', JStr ''echo'')] \<and>
   dicts (snd (send_request_send 0 (step (NewDict [(''type'', JStr ''echo'')]) init))) ! 1
     = [(''type'', JStr ''echo''), (''msg_id'', JInt 1)]"
proof -
  have h: "0 < length (dicts (step (NewDict [(''type'', JStr ''echo'')]) init))"
    by (simp add: init_def)
  show ?thesis
    using h payload_never_mutated [OF h, of "[Opened 0 None, Drained 0 None, Timeout 0]"]
    by (simp add: init_def setdefault_def)
qed






text \<open>
  C7. When the timeout of a waiting call expires before its future is done, the call
  raises \<^verbatim>\<open>TimeoutError\<close>, its registry entry is gone and its future is cancelled. A reply
  that arrives then finds no entry for the id and is printed as a notification; and
  whatever happens later, the abandoned future stays cancelled.
\<close>

theorem timeout_removes_entry:
  assumes "cid < length (calls s)" and "calls s ! cid = AwaitFuture m f"
    and "f < length (futs s)" and "futs s ! f = Pending"
  shows "calls (step (Timeout cid) s) ! cid = Raise TimeoutError \<and>
         map_of (response_futures (step (Timeout cid) s)) (str_int m) = None \<and>
         futs (step (Timeout cid) s) ! f = Cancelled \<and>
         handle_message (JDict [(''reply_to'', JInt m)]) (step (Timeout cid) s)
           = Inr ((step (Timeout cid) s)
                   \<lparr>stdout := stdout (step (Timeout cid) s) @ [JDict [(''reply_to'', JInt m)]]\<rparr>) \<and>
         futs (run es (step (Timeout cid) s)) ! f = Cancelled"
proof -
  let ?s' = "step (Timeout cid) s"
  note r = send_request_resume_timeout [OF assms]
  have c: "calls ?s' ! cid = Raise TimeoutError" using assms(1) by (simp add: r)
  have k: "map_of (response_futures ?s') (str_int m) = None"
    by (simp add: r AList.delete_conv')
  have f: "futs ?s' ! f = Cancelled" using assms(3) by (simp add: r)
  have h: "handle_message (JDict [(''reply_to'', JInt m)]) ?s'
           = Inr (?s'\<lparr>stdout := stdout ?s' @ [JDict [(''reply_to'', JInt m)]]\<rparr>)"
    using k by (simp add: handle_message_def dict_get_def Let_def)
  have len: "f < length (futs ?s')" using assms(3) by (simp add: r)
  have "futs (run es ?s') ! f = futs ?s' ! f"
    using extends_run [of ?s' es] len f by (simp add: extends_def is_done_def)
  then show ?thesis using c k f h by simp
qed

theorem timeout_removes_entry_witness:
  "calls one_waiting ! 0 = AwaitFuture 1 0 \<and> futs one_waiting ! 0 = Pending \<and>
   map_of (response_futures one_waiting) (str_int 1) = Some 0 \<and>
   calls (step (Timeout 0) one_waiting) ! 0 = Raise TimeoutError \<and>
   map_of (response_futures (step (Timeout 0) one_waiting)) (str_int 1) = None \<and>
   futs (run [Feed reply_frame, ReaderStep] (step (Timeout 0) one_waiting)) ! 0 = Cancelled"
proof -
  have h1: "0 < length (calls one_waiting)" by (simp add: one_waiting_fields)
  have h2: "calls one_waiting ! 0 = AwaitFuture 1 0" by (simp add: one_waiting_fields)
  have h3: "0 < length (futs one_waiting)" by (simp add: one_waiting_fields)
  have h4: "futs one_waiting ! 0 = Pending" by (simp add: one_waiting_fields)
  have h5: "map_of (response_futures one_waiting) (str_int 1) = Some 0"
    by (simp add: one_waiting_fields) code_simp
  note th = timeout_removes_entry [OF h1 h2 h3 h4, of "[Feed reply_frame, ReaderStep]"]
  show ?thesis using th h2 h4 h5 by blast
qed

text \<open>
  C9, as the code has it. A reply is matched through \<^verbatim>\<open>str(reply_to)\<close>, looked up among the
  keys \<^verbatim>\<open>str(msg_id)\<close>. So when a call that waits under id \<open>m\<close> returns a message, the message
  is a dict with a \<^verbatim>\<open>reply_to\<close> whose \<^verbatim>\<open>str\<close> is the numeral of \<open>m\<close>; and \<open>m\<close> is the id that
  was put into the request.
\<close>

theorem reply_matches_by_str:
  "(cid < length (calls (run es init)) \<and> calls (run es init) ! cid = AwaitFuture m f \<and>
    calls (step e (run es init)) ! cid = Return msg
      \<longrightarrow> (\<exists>d. msg = JDict d \<and> dict_get d ''reply_to'' \<noteq> JNull
               \<and> py_str (dict_get d ''reply_to'') = str_int m)) \<and>
   (fst (send_request_send p s) = AwaitDrain m' f'
      \<longrightarrow> map_of (dicts (snd (send_request_send p s)) ! length (dicts s)) ''msg_id'' = Some (JInt m'))"
proof (intro conjI impI)
  let ?s = "run es init"
  assume a: "cid < length (calls ?s) \<and> calls ?s ! cid = AwaitFuture m f \<and>
             calls (step e ?s) ! cid = Return msg"
  have i: "inv ?s" by (rule inv_reachable)
  have res: "futs ?s ! f = Result msg"
    using await_future_step [OF i, of cid m f e] a by auto
  have "waiting_on (calls ?s ! cid) = Some (m, f)" using a by simp
  then have "(str_int m, f) \<in> set (response_futures ?s)"
    using i a waiting_entry [of ?s cid m f] by (simp add: inv_def)
  then have "entry_ok ?s (str_int m) f" using i by (simp add: inv_def reg_ok_def)
  then have "reply_ok (str_int m) msg" using res by (simp add: entry_ok_def)
  then show "\<exists>d. msg = JDict d \<and> dict_get d ''reply_to'' \<noteq> JNull
               \<and> py_str (dict_get d ''reply_to'') = str_int m"
    by (simp add: reply_ok_iff)
next
  assume "fst (send_request_send p s) = AwaitDrain m' f'"
  then have "m' = msg_id_counter s + 1" using send_request_send_call [of p s] by auto
  then show "map_of (dicts (snd (send_request_send p s)) ! length (dicts s)) ''msg_id'' = Some (JInt m')"
    by (simp add: send_request_send_def next_msg_id_def write_message_def Let_def AList.update_conv'
        split: sum.splits option.splits)
qed

theorem reply_matches_by_str_witness:
  "calls (run [Feed reply_frame, ReaderStep] one_waiting) ! 0 = AwaitFuture 1 0 \<and>
   calls (step (Wake 0) (run [Feed reply_frame, ReaderStep] one_waiting)) ! 0
     = Return (JDict [(''reply_to'', JInt 1)]) \<and>
   py_str (dict_get [(''reply_to'', JInt 1)] ''reply_to'') = str_int 1"
proof -
  let ?es = "[NewDict [(''type'', JStr ''echo'')], Send 0, Opened 0 None, Drained 0 None,
              Feed reply_frame, ReaderStep]"
  have eq: "run ?es init = run [Feed reply_frame, ReaderStep] one_waiting"
    by (simp add: one_waiting_def run_def)
  have h1: "0 < length (calls (run ?es init))" by (simp add: eq replied_fields)
  have h2: "calls (run ?es init) ! 0 = AwaitFuture 1 0" by (simp add: eq replied_fields)
  have h3: "calls (step (Wake 0) (run ?es init)) ! 0 = Return (JDict [(''reply_to'', JInt 1)])"
    using replied_fields(2) by (simp add: eq)
  from reply_matches_by_str [of 0 ?es 1 0 "Wake 0" "JDict [(''reply_to'', JInt 1)]"] h1 h2 h3
  have "py_str (dict_get [(''reply_to'', JInt 1)] ''reply_to'') = str_int 1" by blast
  then show ?thesis using h2 h3 by (simp only: eq)
qed

text \<open>
  C9, as stated, fails. The request has id 1 (an integer); the peer answers
  \<^verbatim>\<open>{"reply_to":"1"}\<close>, a string. \<^verbatim>\<open>str("1")\<close> is the key \<^verbatim>\<open>str(1)\<close>, so the future is fulfilled and
  \<^verbatim>\<open>send_request\<close> returns a message whose \<^verbatim>\<open>reply_to\<close> is not the id that was sent.
\<close>

theorem string_reply_is_matched:
  "calls one_waiting = [AwaitFuture 1 0] \<and>
   calls (run [Feed string_reply_frame, ReaderStep, Wake 0] one_waiting)
     = [Return (JDict [(''reply_to'', JStr ''1'')])] \<and>
   dict_get [(''reply_to'', JStr ''1'')] ''reply_to'' \<noteq> JInt 1"
  by code_simp

text \<open>
  C1, as the code has it. Nothing is resolved twice: a future that is done keeps its
  state through every run, and a call that has finished keeps its outcome. A call
  finishes in exactly one way, and there are more ways than four. Its first step ends
  it at once with \<^verbatim>\<open>ConnectionError("Client is closed")\<close> on a closed client or with an
  exception of the write, or suspends it in \<^verbatim>\<open>connect\<close> or in \<^verbatim>\<open>drain\<close>. Suspended in
  \<^verbatim>\<open>connect\<close>, it ends with the exception of the connection attempt, or goes on to the
  write; suspended in \<^verbatim>\<open>drain\<close>, it ends with the exception of \<^verbatim>\<open>drain\<close>, or goes on to wait
  for its reply; in both, \<^verbatim>\<open>CancelledError\<close> ends it when the heartbeat task is run. Once it
  waits for its reply, each step of a run from a new client leaves it waiting or ends
  it by what its future then holds: the matched reply; the exception "Connection lost"
  or "Client closed"; or, the future still pending, \<^verbatim>\<open>TimeoutError\<close> when its timeout
  expires and \<^verbatim>\<open>CancelledError\<close> when its task is cancelled on a closed client, the future
  being cancelled in both cases. The timeout always ends a waiting call.
\<close>

theorem resolved_once:
  "(r < length (futs s) \<and> futs s ! r \<noteq> Pending \<longrightarrow> futs (run es s) ! r = futs s ! r) \<and>
   (cid < length (calls s) \<and> finished (calls s ! cid) \<longrightarrow> calls (run es s) ! cid = calls s ! cid) \<and>
   (fst (send_request p s) = Raise (ConnectionError ''Client is closed'') \<and> closed s \<or>
    fst (send_request p s) = AwaitConnect p \<and> \<not> closed s \<or>
    fst (send_request p s) = AwaitDrain (msg_id_counter s + 1) (length (futs s)) \<and> \<not> closed s \<or>
    (\<exists>x. fst (send_request p s) = Raise x \<and> is_Exception x \<and> \<not> closed s)) \<and>
   (cid < length (calls s) \<and> calls s ! cid = AwaitConnect p \<longrightarrow>
      calls (step e s) ! cid = AwaitConnect p \<or>
      (\<exists>x. e = Opened cid (Some x) \<and> calls (step e s) ! cid = Raise x) \<or>
      (e = Opened cid None \<and>
         ((\<exists>m f. calls (step e s) ! cid = AwaitDrain m f) \<or>
          (\<exists>x. calls (step e s) ! cid = Raise x \<and> is_Exception x))) \<or>
      (e = HeartbeatStep \<and> calls (step e s) ! cid = Raise CancelledError)) \<and>
   (cid < length (calls s) \<and> calls s ! cid = AwaitDrain m f \<longrightarrow>
      calls (step e s) ! cid = AwaitDrain m f \<or>
      (e = Drained cid None \<and> calls (step e s) ! cid = AwaitFuture m f) \<or>
      (\<exists>x. e = Drained cid (Some x) \<and> calls (step e s) ! cid = Raise x) \<or>
      (e = HeartbeatStep \<and> calls (step e s) ! cid = Raise CancelledError)) \<and>
   (c < length (calls (run es0 init)) \<and> calls (run es0 init) ! c = AwaitFuture m f \<longrightarrow>
      finished (calls (step (Timeout c) (run es0 init)) ! c) \<and>
      (calls (step e (run es0 init)) ! c = AwaitFuture m f \<or>
       (\<exists>v. futs (run es0 init) ! f = Result v \<and> calls (step e (run es0 init)) ! c = Return v) \<or>
       (\<exists>x. futs (run es0 init) ! f = Exception x \<and> lost x
             \<and> calls (step e (run es0 init)) ! c = Raise x) \<or>
       (futs (run es0 init) ! f = Pending \<and> e = Timeout c
          \<and> calls (step e (run es0 init)) ! c = Raise TimeoutError
          \<and> futs (step e (run es0 init)) ! f = Cancelled) \<or>
       (futs (run es0 init) ! f = Pending \<and> e = HeartbeatStep \<and> closed (run es0 init)
          \<and> calls (step e (run es0 init)) ! c = Raise CancelledError
          \<and> futs (step e (run es0 init)) ! f = Cancelled)))"
proof (intro conjI impI)
  assume "r < length (futs s) \<and> futs s ! r \<noteq> Pending"
  then show "futs (run es s) ! r = futs s ! r"
    using extends_run [of s es] by (simp add: extends_def is_done_def)
next
  assume "cid < length (calls s) \<and> finished (calls s ! cid)"
  then show "calls (run es s) ! cid = calls s ! cid"
    using extends_run [of s es] by (simp add: extends_def)
next
  show "fst (send_request p s) = Raise (ConnectionError ''Client is closed'') \<and> closed s \<or>
    fst (send_request p s) = AwaitConnect p \<and> \<not> closed s \<or>
    fst (send_request p s) = AwaitDrain (msg_id_counter s + 1) (length (futs s)) \<and> \<not> closed s \<or>
    (\<exists>x. fst (send_request p s) = Raise x \<and> is_Exception x \<and> \<not> closed s)"
    by (rule send_request_first_outcome)
next
  assume "cid < length (calls s) \<and> calls s ! cid = AwaitConnect p"
  then show "calls (step e s) ! cid = AwaitConnect p \<or>
      (\<exists>x. e = Opened cid (Some x) \<and> calls (step e s) ! cid = Raise x) \<or>
      (e = Opened cid None \<and>
         ((\<exists>m f. calls (step e s) ! cid = AwaitDrain m f) \<or>
          (\<exists>x. calls (step e s) ! cid = Raise x \<and> is_Exception x))) \<or>
      (e = HeartbeatStep \<and> calls (step e s) ! cid = Raise CancelledError)"
    using await_connect_step [of cid s p e] by blast
next
  assume "cid < length (calls s) \<and> calls s ! cid = AwaitDrain m f"
  then show "calls (step e s) ! cid = AwaitDrain m f \<or>
      (e = Drained cid None \<and> calls (step e s) ! cid = AwaitFuture m f) \<or>
      (\<exists>x. e = Drained cid (Some x) \<and> calls (step e s) ! cid = Raise x) \<or>
      (e = HeartbeatStep \<and> calls (step e s) ! cid = Raise CancelledError)"
    using await_drain_step [of cid s m f e] by blast
next
  assume a: "c < length (calls (run es0 init)) \<and> calls (run es0 init) ! c = AwaitFuture m f"
  show "finished (calls (step (Timeout c) (run es0 init)) ! c)"
    using timeout_finishes [OF inv_reachable, of c es0 m f] a by simp
next
  assume a: "c < length (calls (run es0 init)) \<and> calls (run es0 init) ! c = AwaitFuture m f"
  show "calls (step e (run es0 init)) ! c = AwaitFuture m f \<or>
       (\<exists>v. futs (run es0 init) ! f = Result v \<and> calls (step e (run es0 init)) ! c = Return v) \<or>
       (\<exists>x. futs (run es0 init) ! f = Exception x \<and> lost x
             \<and> calls (step e (run es0 init)) ! c = Raise x) \<or>
       (futs (run es0 init) ! f = Pending \<and> e = Timeout c
          \<and> calls (step e (run es0 init)) ! c = Raise TimeoutError
          \<and> futs (step e (run es0 init)) ! f = Cancelled) \<or>
       (futs (run es0 init) ! f = Pending \<and> e = HeartbeatStep \<and> closed (run es0 init)
          \<and> calls (step e (run es0 init)) ! c = Raise CancelledError
          \<and> futs (step e (run es0 init)) ! f = Cancelled)"
    using await_future_step [OF inv_reachable, of c es0 m f e] a by blast
qed


theorem resolved_once_witness:
  "calls one_waiting ! 0 = AwaitFuture 1 0 \<and>
   finished (calls (step (Timeout 0) one_waiting) ! 0) \<and>
   futs (step (Timeout 0) one_waiting) ! 0 = Cancelled \<and>
   futs (run [Feed reply_frame, ReaderStep, Close, CloseResume] (step (Timeout 0) one_waiting)) ! 0
     = Cancelled \<and>
   calls (run [Feed reply_frame, ReaderStep, Close, CloseResume] (step (Timeout 0) one_waiting)) ! 0
     = Raise TimeoutError"
proof -
  let ?first = "[NewDict [(''type'', JStr ''echo'')], Send 0, Opened 0 None, Drained 0 None]"
  let ?s = "step (Timeout 0) one_waiting"
  let ?es = "[Feed reply_frame, ReaderStep, Close, CloseResume]"
  have eq: "run ?first init = one_waiting" by (simp add: one_waiting_def)
  note th = resolved_once [where r = 0 and s = ?s and es = ?es and cid = 0 and c = 0
      and es0 = ?first and m = 1 and f = 0 and e = "Timeout 0" and p = 0]
  have h1: "0 < length (futs ?s) \<and> futs ?s ! 0 \<noteq> Pending"
    using timed_out_fields(1) by simp
  have h2: "0 < length (calls ?s) \<and> finished (calls ?s ! 0)"
    using timed_out_fields(2) by (simp add: finished_def)
  have h3: "0 < length (calls (run ?first init)) \<and> calls (run ?first init) ! 0 = AwaitFuture 1 0"
    by (simp add: eq one_waiting_fields)
  from th h1 have c1: "futs (run ?es ?s) ! 0 = futs ?s ! 0" by blast
  from th h2 have c2: "calls (run ?es ?s) ! 0 = calls ?s ! 0" by blast
  from th h3 have c3: "finished (calls (step (Timeout 0) (run ?first init)) ! 0)" by blast
  have c3': "finished (calls ?s ! 0)" using c3 by (simp only: eq)
  have f0: "futs ?s ! 0 = Cancelled" using timed_out_fields(1) by simp
  have k0: "calls ?s ! 0 = Raise TimeoutError" using timed_out_fields(2) by simp
  have w0: "calls one_waiting ! 0 = AwaitFuture 1 0" by (simp add: one_waiting_fields)
  show ?thesis using w0 c3' f0 c1 c2 k0 by simp
qed

text \<open>
  C1, as stated, fails: the four ways are not all. The client is not connected, so
  \<^verbatim>\<open>send_request\<close> first awaits \<^verbatim>\<open>connect()\<close>; the connection is refused and the exception of
  \<^verbatim>\<open>open_connection\<close> leaves \<^verbatim>\<open>send_request\<close>. The call has ended without a reply, without a
  reader loop that could have terminated (there never was one), without its timeout
  (no future was created) and on a client that is not closed.
\<close>

theorem call_fails_in_connect:
  "calls (run [NewDict [(''type'', JStr ''echo'')], Send 0, Opened 0 (Some (OSError ''refused''))] init)
     = [Raise (OSError ''refused'')] \<and>
   \<not> closed (run [NewDict [(''type'', JStr ''echo'')], Send 0, Opened 0 (Some (OSError ''refused''))] init) \<and>
   receive_task (run [NewDict [(''type'', JStr ''echo'')], Send 0, Opened 0 (Some (OSError ''refused''))] init)
     = None \<and>
   futs (run [NewDict [(''type'', JStr ''echo'')], Send 0, Opened 0 (Some (OSError ''refused''))] init) = []"
  by code_simp

end
